theory Spec2Isabelle
  imports Main "HOL-Library.Sublist"
begin

section \<open>Python values and strings\<close>

text \<open>
  The program is Python.  A Python \<open>str\<close> is modelled as an Isabelle \<open>string\<close>; the
  character with code \<open>n\<close> stands for the Unicode code point \<open>n\<close> (so the model covers the
  strings over code points 0 to 255).  Values that the code tests with \<open>isinstance(_, str)\<close>
  or for truthiness (a spreadsheet cell, the \<open>url\<close> field of a JSON body) are a \<open>pyval\<close>:
  \<open>None\<close>, a string, or some other object, of which only its truth value matters.
  Exceptions that the code does not catch are values of \<open>py_error\<close>.
\<close>

datatype pyval = PyNone | PyStr string | PyOther bool

datatype py_error = ValueError | AttributeError

text \<open>\<open>str.isspace\<close> on one character: the white space of code points below 256.\<close>

definition isspace :: "char \<Rightarrow> bool" where
  "isspace c =
     (let n = (of_char c :: nat)
      in (9 \<le> n \<and> n \<le> 13) \<or> (28 \<le> n \<and> n \<le> 32) \<or> n = 133 \<or> n = 160)"

text \<open>\<open>str.strip()\<close>, \<open>str.lstrip(chars)\<close>.\<close>

definition py_strip :: "string \<Rightarrow> string" where
  "py_strip s = rev (dropWhile isspace (rev (dropWhile isspace s)))"

definition py_lstrip :: "(char \<Rightarrow> bool) \<Rightarrow> string \<Rightarrow> string" where
  "py_lstrip P s = dropWhile P s"

text \<open>\<open>str.lower()\<close>: on code points below 256 it maps A-Z and the capital letters of
  Latin-1 (192 to 222 without 215) to the letter 32 places further, and nothing else.\<close>

definition is_upper :: "char \<Rightarrow> bool" where
  "is_upper c =
     (let n = (of_char c :: nat)
      in (65 \<le> n \<and> n \<le> 90) \<or> (192 \<le> n \<and> n \<le> 222 \<and> n \<noteq> 215))"

text \<open>Adding 32 to the code of a capital letter sets bit 5 of it, which is clear.\<close>

definition lower_char :: "char \<Rightarrow> char" where
  "lower_char c =
     (if is_upper c
      then (case c of Char b0 b1 b2 b3 b4 b5 b6 b7 \<Rightarrow> Char b0 b1 b2 b3 b4 True b6 b7)
      else c)"

definition py_lower :: "string \<Rightarrow> string" where
  "py_lower s = map lower_char s"

text \<open>\<open>s.startswith(p)\<close>.\<close>

definition startswith :: "string \<Rightarrow> string \<Rightarrow> bool" where
  "startswith s p = (take (length p) s = p)"

definition is_digit :: "char \<Rightarrow> bool" where
  "is_digit c = (let n = (of_char c :: nat) in 48 \<le> n \<and> n \<le> 57)"

definition ascii_alpha :: "char \<Rightarrow> bool" where
  "ascii_alpha c =
     (let n = (of_char c :: nat) in (65 \<le> n \<and> n \<le> 90) \<or> (97 \<le> n \<and> n \<le> 122))"

text \<open>\<open>bool(v)\<close> of a Python value.\<close>

fun truthy :: "pyval \<Rightarrow> bool" where
  "truthy PyNone = False"
| "truthy (PyStr s) = (s \<noteq> [])"
| "truthy (PyOther b) = b"


section \<open>Regular expressions as the \<open>re\<close> module runs them\<close>

text \<open>
  The fragment of Python's regular expressions that the program uses, with the
  backtracking semantics of \<open>re\<close>: \<open>rx_match r (g, s)\<close> is the list of all ways in which
  \<open>r\<close> matches a prefix of \<open>s\<close>, in the order in which the backtracking matcher tries
  them; each is the text captured by group 1 so far and the rest of the subject.  A
  greedy operator lists its longest match first, a lazy one its shortest.  Repetition is
  of a single character class, which is all the patterns of the program need.
\<close>

datatype rx =
    Lit string                 \<comment> \<open>a literal text\<close>
  | Seq rx rx                  \<comment> \<open>\<open>ab\<close>\<close>
  | Alt rx rx                  \<comment> \<open>\<open>a|b\<close>\<close>
  | Opt rx                     \<comment> \<open>\<open>(?:a)?\<close>, greedy\<close>
  | PlusLazy "char \<Rightarrow> bool"     \<comment> \<open>\<open>c+?\<close> for a character class \<open>c\<close>\<close>
  | PlusGreedy "char \<Rightarrow> bool"   \<comment> \<open>\<open>c+\<close> for a character class \<open>c\<close>\<close>
  | Group rx                   \<comment> \<open>\<open>(a)\<close>, the capturing group 1\<close>
  | EndOfString                \<comment> \<open>\<open>\Z\<close>\<close>

text \<open>The rests of \<open>s\<close> after one, two, ... characters of the class, shortest match first.\<close>

fun plus_rests :: "(char \<Rightarrow> bool) \<Rightarrow> string \<Rightarrow> string list" where
  "plus_rests P [] = []"
| "plus_rests P (c # cs) = (if P c then cs # plus_rests P cs else [])"

fun rx_match :: "rx \<Rightarrow> string option \<times> string \<Rightarrow> (string option \<times> string) list" where
  "rx_match (Lit w) (g, s) = (if startswith s w then [(g, drop (length w) s)] else [])"
| "rx_match (Seq a b) x = concat (map (rx_match b) (rx_match a x))"
| "rx_match (Alt a b) x = rx_match a x @ rx_match b x"
| "rx_match (Opt a) x = rx_match a x @ [x]"
| "rx_match (PlusLazy P) (g, s) = map (Pair g) (plus_rests P s)"
| "rx_match (PlusGreedy P) (g, s) = map (Pair g) (rev (plus_rests P s))"
| "rx_match (Group a) (g, s) =
     map (\<lambda>(g', t). (Some (take (length s - length t) s), t)) (rx_match a (g, s))"
| "rx_match EndOfString (g, s) = (if s = [] then [(g, s)] else [])"

text \<open>\<open>pattern.match(s)\<close>: the first match at the start of \<open>s\<close>.\<close>

definition rx_match_at :: "rx \<Rightarrow> string \<Rightarrow> (string option \<times> string) option" where
  "rx_match_at r s = (case rx_match r (None, s) of [] \<Rightarrow> None | m # _ \<Rightarrow> Some m)"

text \<open>\<open>pattern.search(s)\<close>: the first match at the leftmost position that has one; the
  positions run up to and including the end of the subject.\<close>

fun rx_search :: "rx \<Rightarrow> string \<Rightarrow> (string option \<times> string) option" where
  "rx_search r [] = rx_match_at r []"
| "rx_search r (c # cs) =
     (case rx_match_at r (c # cs) of Some m \<Rightarrow> Some m | None \<Rightarrow> rx_search r cs)"

text \<open>The classes \<open>.\<close> (anything but a newline) and \<open>\d\<close> (a decimal digit; below code
  point 256 these are 0 to 9).\<close>

definition rx_dot :: "char \<Rightarrow> bool" where
  "rx_dot c = (c \<noteq> CHR 0x0A)"


section \<open>Identifier extraction\<close>

text \<open>\<^verbatim>\<open>TWEET_URL_RE = (?:https?://)?(?:www\.)?(?:twitter|x)\.com/.+?/status(?:es)?/(\d+)\<close>\<close>

definition TWEET_URL_RE :: rx where
  "TWEET_URL_RE =
     Seq (Opt (Seq (Lit ''http'') (Seq (Opt (Lit ''s'')) (Lit ''://''))))
    (Seq (Opt (Lit ''www.''))
    (Seq (Alt (Lit ''twitter'') (Lit ''x''))
    (Seq (Lit ''.com/'')
    (Seq (PlusLazy rx_dot)
    (Seq (Lit ''/status'')
    (Seq (Opt (Lit ''es''))
    (Seq (Lit ''/'')
         (Group (PlusGreedy is_digit)))))))))"

text \<open>\<open>extract_tweet_id\<close>: \<open>None\<close> for a value that is not a string, else group 1 of the
  first match of the pattern anywhere in the string.\<close>

definition extract_tweet_id :: "pyval \<Rightarrow> string option" where
  "extract_tweet_id url =
     (case url of
        PyStr s \<Rightarrow> (case rx_search TWEET_URL_RE s of None \<Rightarrow> None | Some (g, _) \<Rightarrow> g)
      | _ \<Rightarrow> None)"


section \<open>\<open>urllib.parse\<close>\<close>

text \<open>
  \<open>urlsplit\<close>, \<open>urlparse\<close>, \<open>urlunsplit\<close> and \<open>urlunparse\<close> of the standard library
  (CPython 3.11), on strings and with the default arguments \<open>scheme=''\<close> and
  \<open>allow_fragments=True\<close> that the program uses.  Two library checks are not spelled out.
  \<open>_checknetloc\<close> raises when the NFKC form of a host that is not ASCII contains one of
  \<open>/?#@:\<close>; no code point below 256 has such a form, so it never raises here.
  \<open>ipaddress.ip_address\<close>, which \<open>_check_bracketed_host\<close> calls, is the parameter
  \<open>ipv6\<close> of the functions below: \<open>ipv6 h\<close> says that \<open>ip_address(h)\<close> returns an IPv6
  address (it raises or returns an IPv4 address otherwise, and both end in \<open>ValueError\<close>).
\<close>

record parse_result =
  scheme :: string
  netloc :: string
  path :: string
  params :: string
  query :: string
  fragment :: string

definition uses_netloc :: "string list" where
  "uses_netloc = ['''', ''ftp'', ''http'', ''gopher'', ''nntp'', ''telnet'',
     ''imap'', ''wais'', ''file'', ''mms'', ''https'', ''shttp'',
     ''snews'', ''prospero'', ''rtsp'', ''rtsps'', ''rtspu'', ''rsync'',
     ''svn'', ''svn+ssh'', ''sftp'', ''nfs'', ''git'', ''git+ssh'',
     ''ws'', ''wss'']"

definition uses_params :: "string list" where
  "uses_params = ['''', ''ftp'', ''hdl'', ''prospero'', ''http'', ''imap'',
     ''https'', ''shttp'', ''rtsp'', ''rtsps'', ''rtspu'', ''sip'',
     ''sips'', ''mms'', ''sftp'', ''tel'']"

definition scheme_char :: "char \<Rightarrow> bool" where
  "scheme_char c =
     (ascii_alpha c \<or> is_digit c \<or> c = CHR ''+'' \<or> c = CHR ''-'' \<or> c = CHR ''.'')"

text \<open>\<open>_WHATWG_C0_CONTROL_OR_SPACE\<close> and \<open>_UNSAFE_URL_BYTES_TO_REMOVE\<close> (tab, CR, LF).\<close>

definition c0_or_space :: "char \<Rightarrow> bool" where
  "c0_or_space c = ((of_char c :: nat) \<le> 32)"

definition unsafe_byte :: "char \<Rightarrow> bool" where
  "unsafe_byte c = (c = CHR 0x09 \<or> c = CHR 0x0D \<or> c = CHR 0x0A)"

text \<open>\<open>s.partition(c)\<close>, as the text before the first \<open>c\<close> and the text after it (empty
  when there is no \<open>c\<close>); \<open>s.split(c, 1)\<close> is the same pair when \<open>c\<close> is in \<open>s\<close>.\<close>

definition before_first :: "char \<Rightarrow> string \<Rightarrow> string" where
  "before_first c s = takeWhile (\<lambda>x. x \<noteq> c) s"

definition after_first :: "char \<Rightarrow> string \<Rightarrow> string" where
  "after_first c s = drop 1 (dropWhile (\<lambda>x. x \<noteq> c) s)"

text \<open>\<^verbatim>\<open>re.match(r"\Av[a-fA-F0-9]+\..+\Z", hostname)\<close>\<close>

definition hex_digit :: "char \<Rightarrow> bool" where
  "hex_digit c =
     (let n = (of_char c :: nat)
      in (48 \<le> n \<and> n \<le> 57) \<or> (65 \<le> n \<and> n \<le> 70) \<or> (97 \<le> n \<and> n \<le> 102))"

definition IPVFUTURE_RE :: rx where
  "IPVFUTURE_RE =
     Seq (Lit ''v'') (Seq (PlusGreedy hex_digit) (Seq (Lit ''.'')
         (Seq (PlusGreedy rx_dot) EndOfString)))"

definition check_bracketed_host :: "(string \<Rightarrow> bool) \<Rightarrow> string \<Rightarrow> py_error + unit" where
  "check_bracketed_host ipv6 hostname =
     (if startswith hostname ''v''
      then (if rx_match_at IPVFUTURE_RE hostname = None then Inl ValueError else Inr ())
      else (if ipv6 hostname then Inr () else Inl ValueError))"

text \<open>The scheme: \<open>i = url.find(':')\<close>, and \<open>url[:i]\<close> is a scheme when \<open>i > 0\<close>, the
  first character is an ASCII letter and all of \<open>url[:i]\<close> are scheme characters.\<close>

definition split_scheme :: "string \<Rightarrow> string \<times> string" where
  "split_scheme url =
     (let pre = before_first CHR '':'' url
      in if CHR '':'' \<in> set url \<and> pre \<noteq> [] \<and> ascii_alpha (hd url) \<and> list_all scheme_char pre
         then (py_lower pre, after_first CHR '':'' url)
         else ([], url))"

text \<open>\<open>_splitnetloc(url, 2)\<close>: the host part runs to the first of \<open>/\<close>, \<open>?\<close>, \<open>#\<close>.\<close>

definition netloc_delim :: "char \<Rightarrow> bool" where
  "netloc_delim c = (c = CHR ''/'' \<or> c = CHR ''?'' \<or> c = CHR ''#'')"

definition splitnetloc :: "string \<Rightarrow> string \<times> string" where
  "splitnetloc url =
     (takeWhile (\<lambda>c. \<not> netloc_delim c) (drop 2 url),
      dropWhile (\<lambda>c. \<not> netloc_delim c) (drop 2 url))"

definition check_netloc :: "(string \<Rightarrow> bool) \<Rightarrow> string \<Rightarrow> py_error + unit" where
  "check_netloc ipv6 nl =
     (if (CHR ''['' \<in> set nl \<and> CHR '']'' \<notin> set nl) \<or> (CHR '']'' \<in> set nl \<and> CHR ''['' \<notin> set nl)
      then Inl ValueError
      else if CHR ''['' \<in> set nl \<and> CHR '']'' \<in> set nl
      then check_bracketed_host ipv6 (before_first CHR '']'' (after_first CHR ''['' nl))
      else Inr ())"

text \<open>The fragment is cut off first, then the query.\<close>

definition split_rest :: "string \<Rightarrow> string \<times> string \<times> string" where
  "split_rest url =
     (let (url1, frag) = (if CHR ''#'' \<in> set url
                          then (before_first CHR ''#'' url, after_first CHR ''#'' url)
                          else (url, []));
          (url2, qry) = (if CHR ''?'' \<in> set url1
                         then (before_first CHR ''?'' url1, after_first CHR ''?'' url1)
                         else (url1, []))
      in (url2, qry, frag))"

definition urlsplit :: "(string \<Rightarrow> bool) \<Rightarrow> string \<Rightarrow> py_error + parse_result" where
  "urlsplit ipv6 url0 =
     (let url1 = filter (\<lambda>c. \<not> unsafe_byte c) (py_lstrip c0_or_space url0);
          (sch, url2) = split_scheme url1;
          (nl, url3) = (if take 2 url2 = ''//'' then splitnetloc url2 else ([], url2));
          (p, q, f) = split_rest url3
      in case (if take 2 url2 = ''//'' then check_netloc ipv6 nl else Inr ()) of
           Inl e \<Rightarrow> Inl e
         | Inr _ \<Rightarrow> Inr \<lparr>scheme = sch, netloc = nl, path = p, params = [],
                         query = q, fragment = f\<rparr>)"

text \<open>\<open>_splitparams\<close>: the parameters start at the first \<open>;\<close> of the last path segment.\<close>

definition splitparams :: "string \<Rightarrow> string \<times> string" where
  "splitparams url =
     (if CHR ''/'' \<in> set url
      then (let seg = rev (takeWhile (\<lambda>c. c \<noteq> CHR ''/'') (rev url));
                front = take (length url - length seg) url
            in if CHR '';'' \<in> set seg
               then (front @ before_first CHR '';'' seg, after_first CHR '';'' seg)
               else (url, []))
      else (before_first CHR '';'' url, after_first CHR '';'' url))"

definition urlparse :: "(string \<Rightarrow> bool) \<Rightarrow> string \<Rightarrow> py_error + parse_result" where
  "urlparse ipv6 url =
     (case urlsplit ipv6 url of
        Inl e \<Rightarrow> Inl e
      | Inr r \<Rightarrow>
          (if scheme r \<in> set uses_params \<and> CHR '';'' \<in> set (path r)
           then Inr (r\<lparr>path := fst (splitparams (path r)), params := snd (splitparams (path r))\<rparr>)
           else Inr r))"

definition urlunsplit :: "string \<Rightarrow> string \<Rightarrow> string \<Rightarrow> string \<Rightarrow> string \<Rightarrow> string" where
  "urlunsplit sch nl url qry frag =
     (let url1 = (if nl \<noteq> [] \<or> (sch \<noteq> [] \<and> sch \<in> set uses_netloc) \<or> take 2 url = ''//''
                  then ''//'' @ nl @ (if url \<noteq> [] \<and> take 1 url \<noteq> ''/'' then ''/'' @ url else url)
                  else url);
          url2 = (if sch \<noteq> [] then sch @ '':'' @ url1 else url1);
          url3 = (if qry \<noteq> [] then url2 @ ''?'' @ qry else url2)
      in if frag \<noteq> [] then url3 @ ''#'' @ frag else url3)"

definition urlunparse :: "string \<Rightarrow> string \<Rightarrow> string \<Rightarrow> string \<Rightarrow> string \<Rightarrow> string \<Rightarrow> string" where
  "urlunparse sch nl url prm qry frag =
     urlunsplit sch nl (if prm \<noteq> [] then url @ '';'' @ prm else url) qry frag"


section \<open>URL normalisation\<close>

definition allowed_hosts :: "string set" where
  "allowed_hosts =
     {''twitter.com'', ''mobile.twitter.com'', ''m.twitter.com'', ''x.com'', ''mobile.x.com''}"

text \<open>\<open>host = parsed.netloc.lower()\<close>, without a leading \<open>www.\<close>.\<close>

definition host_of_netloc :: "string \<Rightarrow> string" where
  "host_of_netloc nl =
     (let host = py_lower nl in if startswith host ''www.'' then drop 4 host else host)"

text \<open>The two steps of \<open>normalize_input_url\<close> that give the text a scheme.\<close>

definition with_scheme :: "string \<Rightarrow> string" where
  "with_scheme trimmed =
     (let t1 = (if startswith trimmed ''//'' then ''https:'' @ trimmed else trimmed)
      in if \<not> (startswith (py_lower t1) ''http://'' \<or> startswith (py_lower t1) ''https://'')
         then ''https://'' @ t1 else t1)"

definition normalize_input_url :: "(string \<Rightarrow> bool) \<Rightarrow> pyval \<Rightarrow> py_error + string option" where
  "normalize_input_url ipv6 raw_url =
     (case raw_url of
        PyStr raw \<Rightarrow>
          (let trimmed = py_strip raw
           in if trimmed = [] then Inr None
              else (case urlparse ipv6 (with_scheme trimmed) of
                      Inl e \<Rightarrow> Inl e
                    | Inr parsed \<Rightarrow>
                        (let host = host_of_netloc (netloc parsed)
                         in if host \<notin> allowed_hosts then Inr None
                            else Inr (Some (urlunparse ''https'' host (path parsed) [] [] [])))))
      | _ \<Rightarrow> Inr None)"


section \<open>Candidate generation\<close>

text \<open>\<open>s.endswith(p)\<close>.\<close>

definition endswith :: "string \<Rightarrow> string \<Rightarrow> bool" where
  "endswith s p = (drop (length s - length p) s = p)"

definition convert_to_x_domain :: "(string \<Rightarrow> bool) \<Rightarrow> string \<Rightarrow> bool \<Rightarrow> py_error + string" where
  "convert_to_x_domain ipv6 url keep_query =
     (case urlparse ipv6 url of
        Inl e \<Rightarrow> Inl e
      | Inr parsed \<Rightarrow>
          (let host0 = host_of_netloc (netloc parsed);
               host = (if endswith host0 ''twitter.com'' then ''x.com''
                       else if endswith host0 ''mobile.twitter.com'' \<or> endswith host0 ''m.twitter.com''
                       then ''x.com''
                       else if endswith host0 ''.x.com'' then ''x.com''
                       else if host0 \<noteq> ''x.com'' then ''x.com''
                       else host0);
               qry = (if keep_query then query parsed else [])
           in Inr (urlunparse ''https'' host (path parsed) [] qry [])))"

text \<open>The four templates of \<open>build_fetch_urls\<close>, and its list of seeds.\<close>

definition fetch_templates :: "string \<Rightarrow> string list" where
  "fetch_templates tweet_id =
     [''https://x.com/i/web/status/'' @ tweet_id,
      ''https://twitter.com/i/web/status/'' @ tweet_id,
      ''https://x.com/i/status/'' @ tweet_id,
      ''https://twitter.com/i/status/'' @ tweet_id]"

definition fetch_seeds :: "string \<Rightarrow> pyval \<Rightarrow> pyval \<Rightarrow> pyval list" where
  "fetch_seeds tweet_id normalized_url canonical_url =
     (if truthy canonical_url then [canonical_url] else []) @
     (if truthy normalized_url then [normalized_url] else []) @
     map PyStr (fetch_templates tweet_id)"

text \<open>``Ensure the seed has a scheme before parsing.''\<close>

definition seed_with_scheme :: "string \<Rightarrow> string" where
  "seed_with_scheme raw =
     (if startswith raw ''//'' then ''https:'' @ raw
      else if \<not> (startswith (py_lower raw) ''http://'' \<or> startswith (py_lower raw) ''https://'')
      then ''https://'' @ py_lstrip (\<lambda>c. c = CHR ''/'') raw
      else raw)"

text \<open>\<open>if u not in seen: seen.add(u); candidates.append(u)\<close>, on the pair of \<open>seen\<close> and
  \<open>candidates\<close>.\<close>

definition add_candidate :: "string \<Rightarrow> string set \<times> string list \<Rightarrow> string set \<times> string list" where
  "add_candidate u st =
     (case st of (seen, candidates) \<Rightarrow>
        if u \<notin> seen then (insert u seen, candidates @ [u]) else (seen, candidates))"

text \<open>\<open>base\<close> and \<open>query_url\<close> of a parsed seed.\<close>

definition seed_base :: "parse_result \<Rightarrow> string" where
  "seed_base parsed =
     urlunparse (if scheme parsed \<noteq> [] then scheme parsed else ''https'')
       (netloc parsed) (path parsed) [] [] []"

definition seed_query_url :: "parse_result \<Rightarrow> string" where
  "seed_query_url parsed =
     urlunparse (if scheme parsed \<noteq> [] then scheme parsed else ''https'')
       (netloc parsed) (path parsed) [] (query parsed) []"

text \<open>The first half of the loop body: the candidate without the query.\<close>

definition add_base :: "(string \<Rightarrow> bool) \<Rightarrow> parse_result \<Rightarrow> string set \<times> string list
    \<Rightarrow> py_error + string set \<times> string list" where
  "add_base ipv6 parsed st =
     (case normalize_input_url ipv6 (PyStr (seed_base parsed)) of
        Inl e \<Rightarrow> Inl e
      | Inr None \<Rightarrow> Inr st
      | Inr (Some normalized_base) \<Rightarrow>
          (if normalized_base = [] then Inr st
           else (case convert_to_x_domain ipv6 normalized_base False of
                   Inl e \<Rightarrow> Inl e
                 | Inr x_url \<Rightarrow> Inr (add_candidate x_url st))))"

text \<open>The second half: the candidate that keeps the query, when the seed has one.\<close>

definition add_query :: "(string \<Rightarrow> bool) \<Rightarrow> parse_result \<Rightarrow> string set \<times> string list
    \<Rightarrow> py_error + string set \<times> string list" where
  "add_query ipv6 parsed st =
     (if query parsed = [] then Inr st
      else (case normalize_input_url ipv6 (PyStr (seed_query_url parsed)) of
              Inl e \<Rightarrow> Inl e
            | Inr None \<Rightarrow> Inr st
            | Inr (Some normalized_query) \<Rightarrow>
                (if normalized_query = [] then Inr st
                 else (case convert_to_x_domain ipv6 (seed_query_url parsed) True of
                         Inl e \<Rightarrow> Inl e
                       | Inr x_query_url \<Rightarrow> Inr (add_candidate x_query_url st)))))"

text \<open>One turn of the loop over the seeds.  A seed that is true but no string has no
  \<open>startswith\<close>: the code raises \<open>AttributeError\<close>.\<close>

definition fetch_step :: "(string \<Rightarrow> bool) \<Rightarrow> pyval \<Rightarrow> string set \<times> string list
    \<Rightarrow> py_error + string set \<times> string list" where
  "fetch_step ipv6 seed st =
     (if \<not> truthy seed then Inr st
      else (case seed of
              PyStr raw \<Rightarrow>
                (case urlparse ipv6 (seed_with_scheme raw) of
                   Inl e \<Rightarrow> Inl e
                 | Inr parsed \<Rightarrow>
                     (case add_base ipv6 parsed st of
                        Inl e \<Rightarrow> Inl e
                      | Inr st1 \<Rightarrow> add_query ipv6 parsed st1))
            | _ \<Rightarrow> Inl AttributeError))"

fun fetch_loop :: "(string \<Rightarrow> bool) \<Rightarrow> pyval list \<Rightarrow> string set \<times> string list
    \<Rightarrow> py_error + string set \<times> string list" where
  "fetch_loop ipv6 [] st = Inr st"
| "fetch_loop ipv6 (seed # seeds) st =
     (case fetch_step ipv6 seed st of
        Inl e \<Rightarrow> Inl e
      | Inr st1 \<Rightarrow> fetch_loop ipv6 seeds st1)"

definition build_fetch_urls :: "(string \<Rightarrow> bool) \<Rightarrow> string \<Rightarrow> pyval \<Rightarrow> pyval
    \<Rightarrow> py_error + string list" where
  "build_fetch_urls ipv6 tweet_id normalized_url canonical_url =
     (case fetch_loop ipv6 (fetch_seeds tweet_id normalized_url canonical_url) ({}, []) of
        Inl e \<Rightarrow> Inl e
      | Inr (seen, candidates) \<Rightarrow> Inr candidates)"


section \<open>The availability classifier\<close>

text \<open>
  The two HTTP sessions are the only contact of the program with the outside.  A run
  keeps the list of the requests made so far, and the network is a pair of functions that
  answer a request from that history and the requested URL: with a raised
  \<open>requests.RequestException\<close> (its text, \<open>Inl\<close>) or with a response.  Of the response
  of the oEmbed endpoint the code reads the status code and \<open>response.json().get("url")\<close>:
  \<open>json()\<close> raises \<open>ValueError\<close> (with some text), or the body is JSON but no object, so
  that \<open>get\<close> does not exist, or \<open>get\<close> returns a value.  The event \<open>Classify\<close> marks
  a call of \<open>check_tweet\<close> in the history; it is no request.
\<close>

datatype event = Classify string | OembedGet string | BotGet string

datatype json_body = JsonInvalid string | JsonNoObject | JsonObject pyval

record network =
  oembed_get :: "event list \<Rightarrow> string \<Rightarrow> string + int \<times> json_body"
  bot_get :: "event list \<Rightarrow> string \<Rightarrow> string + int"

record outcome =
  availability :: string
  http_status :: "int option"
  detail :: "string option"
  oembed_status :: "int option"
  checked_url :: "string option"

text \<open>\<open>str(n)\<close> of an integer, as the f-strings format a status code.\<close>

fun digits_of :: "nat \<Rightarrow> string" where
  "digits_of n =
     (if n < 10 then [''0123456789'' ! n]
      else digits_of (n div 10) @ [''0123456789'' ! (n mod 10)])"

definition py_str_int :: "int \<Rightarrow> string" where
  "py_str_int i = (if i < 0 then ''-'' @ digits_of (nat (- i)) else digits_of (nat i))"

text \<open>The variables of the loop over the candidates.\<close>

record fetch_state =
  last_status :: "int option"
  last_detail :: "string option"
  last_url :: "string option"
  last_exception :: "string option"

text \<open>The loop of phase 2: \<open>Inl\<close> is a \<open>return\<close> from inside the loop, \<open>Inr\<close> the
  variables after the last candidate.\<close>

fun fetch_candidates :: "network \<Rightarrow> int \<Rightarrow> string list \<Rightarrow> fetch_state \<Rightarrow> event list
    \<Rightarrow> (outcome + fetch_state) \<times> event list" where
  "fetch_candidates net status_code [] st log = (Inr st, log)"
| "fetch_candidates net status_code (candidate_url # rest) st log =
     (case bot_get net log candidate_url of
        Inl exc \<Rightarrow>
          fetch_candidates net status_code rest (st\<lparr>last_exception := Some exc\<rparr>)
            (log @ [BotGet candidate_url])
      | Inr fetch_status \<Rightarrow>
          (let st1 = st\<lparr>last_status := Some fetch_status, last_url := Some candidate_url\<rparr>;
               log1 = log @ [BotGet candidate_url]
           in if fetch_status = 200 then
                (Inl \<lparr>availability = ''public'', http_status = Some fetch_status,
                      detail = None, oembed_status = Some status_code,
                      checked_url = Some candidate_url\<rparr>, log1)
              else if fetch_status = 401 \<or> fetch_status = 403 then
                (Inl \<lparr>availability = ''restricted'', http_status = Some fetch_status,
                      detail = Some ''Tweet requires authentication or is protected'',
                      oembed_status = Some status_code,
                      checked_url = Some candidate_url\<rparr>, log1)
              else if fetch_status = 410 then
                (Inl \<lparr>availability = ''gone'', http_status = Some fetch_status,
                      detail = Some ''Tweet removed (410)'',
                      oembed_status = Some status_code,
                      checked_url = Some candidate_url\<rparr>, log1)
              else if fetch_status = 429 then
                (Inl \<lparr>availability = ''rate_limited'', http_status = Some fetch_status,
                      detail = Some ''Rate limited while fetching tweet'',
                      oembed_status = Some status_code,
                      checked_url = Some candidate_url\<rparr>, log1)
              else if fetch_status = 451 then
                (Inl \<lparr>availability = ''unavailable_legal'', http_status = Some fetch_status,
                      detail = Some ''Tweet unavailable due to legal demand'',
                      oembed_status = Some status_code,
                      checked_url = Some candidate_url\<rparr>, log1)
              else if fetch_status = 404 then
                fetch_candidates net status_code rest
                  (st1\<lparr>last_detail :=
                     Some (if status_code = 200
                           then ''Tweet page returned 404 despite oEmbed success''
                           else ''Tweet not found or removed'')\<rparr>) log1
              else
                fetch_candidates net status_code rest
                  (st1\<lparr>last_detail :=
                     Some (''Unexpected '' @ py_str_int fetch_status @
                           '' response while fetching tweet'')\<rparr>) log1))"

text \<open>The code after the loop.\<close>

definition after_loop :: "int \<Rightarrow> fetch_state \<Rightarrow> outcome" where
  "after_loop status_code st =
     (case last_status st of
        None \<Rightarrow>
          \<lparr>availability = ''error'', http_status = None,
           detail = Some (case last_exception st of
                            None \<Rightarrow> ''Direct fetch failed''
                          | Some exc \<Rightarrow> if exc \<noteq> [] then ''Direct fetch failed: '' @ exc
                                        else ''Direct fetch failed''),
           oembed_status = Some status_code, checked_url = None\<rparr>
      | Some s \<Rightarrow>
          \<lparr>availability = (if s = 404 then ''not_found'' else ''unknown''),
           http_status = Some s, detail = last_detail st,
           oembed_status = Some status_code, checked_url = last_url st\<rparr>)"

definition initial_fetch_state :: fetch_state where
  "initial_fetch_state =
     \<lparr>last_status = None, last_detail = None, last_url = None, last_exception = None\<rparr>"

text \<open>Phase 2, from line 215 of \<open>check_tweet\<close> on: the candidates, the loop, the end.\<close>

definition direct_fetch :: "(string \<Rightarrow> bool) \<Rightarrow> network \<Rightarrow> string \<Rightarrow> string \<Rightarrow> int \<Rightarrow> pyval
    \<Rightarrow> event list \<Rightarrow> (py_error + outcome) \<times> event list" where
  "direct_fetch ipv6 net tweet_id normalized_input status_code canonical_url log =
     (case build_fetch_urls ipv6 tweet_id (PyStr normalized_input) canonical_url of
        Inl e \<Rightarrow> (Inl e, log)
      | Inr fetch_urls \<Rightarrow>
          (case fetch_candidates net status_code fetch_urls initial_fetch_state log of
             (Inl result, log1) \<Rightarrow> (Inr result, log1)
           | (Inr st, log1) \<Rightarrow> (Inr (after_loop status_code st), log1)))"

text \<open>\<open>check_tweet\<close>.  In the branch of status 200 the code assigns \<open>availability\<close> and
  \<open>detail\<close>, and reads neither of them afterwards; \<open>detail_200\<close> is that value of
  \<open>detail\<close>.\<close>

definition detail_200 :: "json_body \<Rightarrow> string option" where
  "detail_200 body =
     (case body of
        JsonInvalid exc \<Rightarrow> Some (''Failed to parse oEmbed payload: '' @ exc)
      | _ \<Rightarrow> None)"

definition check_tweet :: "(string \<Rightarrow> bool) \<Rightarrow> network \<Rightarrow> string \<Rightarrow> pyval \<Rightarrow> event list
    \<Rightarrow> (py_error + outcome) \<times> event list" where
  "check_tweet ipv6 net tweet_id original_url log =
     (case normalize_input_url ipv6 original_url of
        Inl e \<Rightarrow> (Inl e, log)
      | Inr normalized \<Rightarrow>
          (if normalized = None \<or> normalized = Some [] then
             (Inr \<lparr>availability = ''invalid_url'', http_status = None,
                   detail = Some ''URL could not be normalized'',
                   oembed_status = None, checked_url = None\<rparr>, log)
           else
             (let normalized_input = the normalized;
                  log1 = log @ [OembedGet normalized_input]
              in case oembed_get net log normalized_input of
                   Inl exc \<Rightarrow>
                     (Inr \<lparr>availability = ''error'', http_status = None,
                           detail = Some (''oEmbed request failed: '' @ exc),
                           oembed_status = None, checked_url = None\<rparr>, log1)
                 | Inr (status_code, body) \<Rightarrow>
                     (if status_code = 200 then
                        (case body of
                           JsonInvalid exc \<Rightarrow>
                             direct_fetch ipv6 net tweet_id normalized_input status_code PyNone log1
                         | JsonNoObject \<Rightarrow> (Inl AttributeError, log1)
                         | JsonObject canonical_url \<Rightarrow>
                             direct_fetch ipv6 net tweet_id normalized_input status_code
                               canonical_url log1)
                      else if status_code = 401 \<or> status_code = 403 then
                        (Inr \<lparr>availability = ''restricted'', http_status = Some status_code,
                              detail = Some ''Tweet requires authentication or is protected'',
                              oembed_status = Some status_code, checked_url = None\<rparr>, log1)
                      else if status_code = 404 then
                        (Inr \<lparr>availability = ''not_found'', http_status = Some status_code,
                              detail = Some ''Tweet not found or removed'',
                              oembed_status = Some status_code, checked_url = None\<rparr>, log1)
                      else if status_code = 429 then
                        (Inr \<lparr>availability = ''rate_limited'', http_status = Some status_code,
                              detail = Some ''Rate limited by Twitter oEmbed endpoint'',
                              oembed_status = Some status_code, checked_url = None\<rparr>, log1)
                      else
                        (Inr \<lparr>availability = ''unknown'', http_status = Some status_code,
                              detail = Some (''Unexpected '' @ py_str_int status_code @
                                             '' response from oEmbed''),
                              oembed_status = Some status_code, checked_url = None\<rparr>, log1)))))"


text \<open>The table of phase 1 as the specification has it, for the statuses other than
  200: 401 and 403 are \<open>restricted\<close>, 404 is \<open>not_found\<close>, 429 is \<open>rate_limited\<close>, any
  other code is \<open>unknown\<close>.\<close>

definition spec_phase1_table :: "int \<Rightarrow> string" where
  "spec_phase1_table status =
     (if status = 401 \<or> status = 403 then ''restricted''
      else if status = 404 then ''not_found''
      else if status = 429 then ''rate_limited''
      else ''unknown'')"


section \<open>The batch and its cache\<close>

text \<open>One row of the result table: the fields of the outcome, the identifier and the time
  stamp of the run.\<close>

record result_record = outcome +
  tweet_id :: "string option"
  checked_at :: string

definition invalid_record :: "string \<Rightarrow> result_record" where
  "invalid_record ts =
     \<lparr>availability = ''invalid_url'', http_status = None,
      detail = Some ''Tweet ID not found in URL'', oembed_status = None,
      checked_url = None, tweet_id = None, checked_at = ts\<rparr>"

definition cached_record :: "string \<Rightarrow> outcome \<Rightarrow> string \<Rightarrow> result_record" where
  "cached_record tid result ts =
     \<lparr>availability = availability result, http_status = http_status result,
      detail = detail result, oembed_status = oembed_status result,
      checked_url = checked_url result, tweet_id = Some tid, checked_at = ts\<rparr>"

text \<open>The loop over the rows, which \<open>run_checks\<close> of \<open>app.py\<close> and \<open>main\<close> of
  \<open>check_tweet_links.py\<close> both have: the cache is a dictionary from identifiers to
  outcomes, \<open>results\<close> the list of rows made so far.  An exception of \<open>check_tweet\<close> ends
  the loop.\<close>

fun run_rows :: "(string \<Rightarrow> bool) \<Rightarrow> network \<Rightarrow> string \<Rightarrow> pyval list
    \<Rightarrow> (string \<rightharpoonup> outcome) \<times> result_record list \<Rightarrow> event list
    \<Rightarrow> (py_error + (string \<rightharpoonup> outcome) \<times> result_record list) \<times> event list" where
  "run_rows ipv6 net ts [] st log = (Inr st, log)"
| "run_rows ipv6 net ts (url # urls) (cache, results) log =
     (case extract_tweet_id url of
        None \<Rightarrow> run_rows ipv6 net ts urls (cache, results @ [invalid_record ts]) log
      | Some tid \<Rightarrow>
          (if tid = [] then
             run_rows ipv6 net ts urls (cache, results @ [invalid_record ts]) log
           else
             (case cache tid of
                Some result \<Rightarrow>
                  run_rows ipv6 net ts urls (cache, results @ [cached_record tid result ts]) log
              | None \<Rightarrow>
                  (case check_tweet ipv6 net tid url (log @ [Classify tid]) of
                     (Inl e, log1) \<Rightarrow> (Inl e, log1)
                   | (Inr result, log1) \<Rightarrow>
                       run_rows ipv6 net ts urls
                         (cache(tid \<mapsto> result), results @ [cached_record tid result ts])
                         log1))))"

definition run_checks :: "(string \<Rightarrow> bool) \<Rightarrow> network \<Rightarrow> string \<Rightarrow> pyval list
    \<Rightarrow> (py_error + result_record list) \<times> event list" where
  "run_checks ipv6 net ts urls =
     (case run_rows ipv6 net ts urls (Map.empty, []) [] of
        (Inl e, log) \<Rightarrow> (Inl e, log)
      | (Inr (cache, results), log) \<Rightarrow> (Inr results, log))"


section \<open>Notions of the specification\<close>

text \<open>The answers that the candidates get when the loop of phase 2 visits all of them:
  each candidate with the raised exception or the status of its response.\<close>

fun fetch_answers :: "network \<Rightarrow> string list \<Rightarrow> event list \<Rightarrow> (string \<times> (string + int)) list" where
  "fetch_answers net [] log = []"
| "fetch_answers net (c # cs) log =
     (c, bot_get net log c) # fetch_answers net cs (log @ [BotGet c])"

text \<open>The statuses that stop the iteration.\<close>

definition decisive :: "int \<Rightarrow> bool" where
  "decisive s = (s = 200 \<or> s = 401 \<or> s = 403 \<or> s = 410 \<or> s = 429 \<or> s = 451)"

text \<open>The HTTP responses among the answers, and the texts of the network failures.\<close>

fun responses :: "(string \<times> (string + int)) list \<Rightarrow> (string \<times> int) list" where
  "responses [] = []"
| "responses ((c, Inl e) # xs) = responses xs"
| "responses ((c, Inr s) # xs) = (c, s) # responses xs"

fun failures :: "(string \<times> (string + int)) list \<Rightarrow> string list" where
  "failures [] = []"
| "failures ((c, Inl e) # xs) = e # failures xs"
| "failures ((c, Inr s) # xs) = failures xs"

text \<open>The detail recorded for a status that does not stop the iteration.\<close>

definition spec_pending_detail :: "int \<Rightarrow> int \<Rightarrow> string" where
  "spec_pending_detail status_code s =
     (if s = 404
      then (if status_code = 200 then ''Tweet page returned 404 despite oEmbed success''
            else ''Tweet not found or removed'')
      else ''Unexpected '' @ py_str_int s @ '' response while fetching tweet'')"

text \<open>The identifiers for which \<open>check_tweet\<close> was called, in the order of the calls.\<close>

fun classified :: "event list \<Rightarrow> string list" where
  "classified [] = []"
| "classified (Classify tid # es) = tid # classified es"
| "classified (e # es) = classified es"




section \<open>Notions used in the proofs\<close>

text \<open>A pattern without \<open>\Z\<close>: what it matches, it also matches when text is appended to
  the subject.\<close>

fun rx_no_end :: "rx \<Rightarrow> bool" where
  "rx_no_end EndOfString = False"
| "rx_no_end (Seq a b) = (rx_no_end a \<and> rx_no_end b)"
| "rx_no_end (Alt a b) = (rx_no_end a \<and> rx_no_end b)"
| "rx_no_end (Opt a) = rx_no_end a"
| "rx_no_end (Group a) = rx_no_end a"
| "rx_no_end r = True"

text \<open>What \<open>urlsplit\<close> does with the text after \<open>scheme://\<close>, once the unsafe bytes are
  removed from it.\<close>

definition url_body :: "(string \<Rightarrow> bool) \<Rightarrow> string \<Rightarrow> string \<Rightarrow> py_error + parse_result" where
  "url_body ipv6 sch body =
     (let nl = takeWhile (\<lambda>c. \<not> netloc_delim c) body;
          r = dropWhile (\<lambda>c. \<not> netloc_delim c) body;
          (p, q, f) = split_rest r
      in case check_netloc ipv6 nl of
           Inl e \<Rightarrow> Inl e
         | Inr _ \<Rightarrow> Inr \<lparr>scheme = sch, netloc = nl, path = p, params = [],
                         query = q, fragment = f\<rparr>)"

text \<open>The text after the last \<open>/\<close> of a path; and the paths, queries and hosts that
  \<open>urlparse\<close> returns for an \<open>http\<close> or \<open>https\<close> URL: they are free of the bytes and
  delimiters that the parser removes or splits at.\<close>

definition last_segment :: "string \<Rightarrow> string" where
  "last_segment p = rev (takeWhile (\<lambda>c. c \<noteq> CHR ''/'') (rev p))"

definition good_path :: "string \<Rightarrow> bool" where
  "good_path p =
     ((p = [] \<or> hd p = CHR ''/'') \<and>
      list_all (\<lambda>c. \<not> unsafe_byte c \<and> c \<noteq> CHR ''?'' \<and> c \<noteq> CHR ''#'') p \<and>
      CHR '';'' \<notin> set (last_segment p))"

definition good_query :: "string \<Rightarrow> bool" where
  "good_query q = list_all (\<lambda>c. \<not> unsafe_byte c \<and> c \<noteq> CHR ''#'') q"

definition good_netloc :: "string \<Rightarrow> bool" where
  "good_netloc nl = list_all (\<lambda>c. \<not> unsafe_byte c \<and> \<not> netloc_delim c) nl"

text \<open>\<open>str.rstrip()\<close>.\<close>

definition rstrip :: "string \<Rightarrow> string" where
  "rstrip s = rev (dropWhile isspace (rev s))"


text \<open>The shape of a candidate: \<open>https://x.com\<close>, and then nothing, a path or a query.
  The loop of \<open>build_fetch_urls\<close> keeps \<open>seen\<close> the set of the candidates, the candidates
  distinct and of that shape.\<close>

definition x_shaped :: "string \<Rightarrow> bool" where
  "x_shaped c = (\<exists>r. c = ''https://x.com'' @ r \<and> (r = [] \<or> hd r = CHR ''/'' \<or> hd r = CHR ''?''))"

definition cand_inv :: "string set \<times> string list \<Rightarrow> bool" where
  "cand_inv st = (fst st = set (snd st) \<and> distinct (snd st) \<and> list_all x_shaped (snd st))"


section \<open>Evaluation and first facts\<close>

lemmas str_eval = isspace_def py_strip_def py_lstrip_def is_upper_def lower_char_def py_lower_def
  startswith_def is_digit_def ascii_alpha_def rx_dot_def

lemmas url_eval = uses_netloc_def uses_params_def scheme_char_def c0_or_space_def unsafe_byte_def
  before_first_def after_first_def hex_digit_def IPVFUTURE_RE_def check_bracketed_host_def
  split_scheme_def netloc_delim_def splitnetloc_def check_netloc_def split_rest_def urlsplit_def
  splitparams_def urlparse_def urlunsplit_def urlunparse_def allowed_hosts_def host_of_netloc_def
  with_scheme_def normalize_input_url_def rx_match_at_def

lemmas cand_eval = build_fetch_urls_def fetch_seeds_def fetch_templates_def fetch_step_def
  seed_with_scheme_def add_base_def add_query_def seed_base_def seed_query_url_def
  add_candidate_def convert_to_x_domain_def endswith_def

lemma urlunparse_https_nonempty: "urlunparse ''https'' h p a b c \<noteq> []"
  by (simp add: urlunparse_def urlunsplit_def Let_def)

lemma normalize_nonempty:
  "normalize_input_url ipv6 url = Inr (Some n) \<Longrightarrow> n \<noteq> []"
  by (auto simp: normalize_input_url_def Let_def urlunparse_https_nonempty
      split: pyval.splits if_splits sum.splits)


section \<open>Phase 1 of the classifier\<close>

text \<open>A URL whose host has an opening bracket and no closing one: the pattern of the
  identifier matches it, and \<open>urlparse\<close>, which \<open>normalize_input_url\<close> calls outside any
  \<open>try\<close>, raises \<open>ValueError\<close>.\<close>

lemma bad_bracket_extracted:
  "extract_tweet_id (PyStr ''https://[x.com/a/status/1'') = Some ''1''"
  by (simp add: extract_tweet_id_def TWEET_URL_RE_def str_eval rx_match_at_def)

lemma bad_bracket_normalize:
  "normalize_input_url ipv6 (PyStr ''https://[x.com/a/status/1'') = Inl ValueError"
  by (simp add: str_eval url_eval Let_def)

text \<open>
  Claim C1.  When the normaliser returns nothing for the input URL, \<open>check_tweet\<close> returns
  \<open>invalid_url\<close> and the history of requests is unchanged.  When it returns \<open>n\<close>, exactly
  one request goes to the oEmbed endpoint; a network failure gives \<open>error\<close>, a status
  other than 200 gives the outcome of the table of the specification (401 and 403
  \<open>restricted\<close>, 404 \<open>not_found\<close>, 429 \<open>rate_limited\<close>, any other \<open>unknown\<close>), and in all these
  cases no further request is made.  Status 200 alone goes on to phase 2, which is
  \<open>direct_fetch\<close> (or the \<open>AttributeError\<close> of a JSON body that is no object).

  The claim fails in the third case of the normaliser: when it raises, \<open>check_tweet\<close>
  raises the same exception, with no request made, and returns neither \<open>invalid_url\<close>
  nor an outcome of the table.  The URL \<open>https://[x.com/a/status/1\<close> is such an input:
  the identifier \<open>1\<close> is extracted from it, \<open>check_tweet\<close> raises \<open>ValueError\<close> on it, and
  the batch that holds it ends with that exception and without a result.
\<close>

theorem C1_phase1_decision_table:
  "(\<forall>e. normalize_input_url ipv6 url = Inl e \<longrightarrow>
      check_tweet ipv6 net tid url log = (Inl e, log)) \<and>
   extract_tweet_id (PyStr ''https://[x.com/a/status/1'') = Some ''1'' \<and>
   check_tweet ipv6 net ''1'' (PyStr ''https://[x.com/a/status/1'') log = (Inl ValueError, log) \<and>
   run_checks ipv6 net ts [PyStr ''https://[x.com/a/status/1''] =
     (Inl ValueError, [Classify ''1'']) \<and>
   (normalize_input_url ipv6 url = Inr None \<longrightarrow>
      check_tweet ipv6 net tid url log =
        (Inr \<lparr>availability = ''invalid_url'', http_status = None,
              detail = Some ''URL could not be normalized'',
              oembed_status = None, checked_url = None\<rparr>, log)) \<and>
   (normalize_input_url ipv6 url = Inr (Some n) \<longrightarrow>
      (\<forall>exc. oembed_get net log n = Inl exc \<longrightarrow>
         check_tweet ipv6 net tid url log =
           (Inr \<lparr>availability = ''error'', http_status = None,
                 detail = Some (''oEmbed request failed: '' @ exc),
                 oembed_status = None, checked_url = None\<rparr>, log @ [OembedGet n])) \<and>
      (\<forall>status body. oembed_get net log n = Inr (status, body) \<and> status \<noteq> 200 \<longrightarrow>
         (\<exists>result. check_tweet ipv6 net tid url log = (Inr result, log @ [OembedGet n]) \<and>
            availability result = spec_phase1_table status \<and>
            http_status result = Some status \<and> oembed_status result = Some status \<and>
            checked_url result = None)) \<and>
      (\<forall>body. oembed_get net log n = Inr (200, body) \<longrightarrow>
         check_tweet ipv6 net tid url log =
           (case body of
              JsonInvalid exc \<Rightarrow> direct_fetch ipv6 net tid n 200 PyNone (log @ [OembedGet n])
            | JsonNoObject \<Rightarrow> (Inl AttributeError, log @ [OembedGet n])
            | JsonObject canonical_url \<Rightarrow>
                direct_fetch ipv6 net tid n 200 canonical_url (log @ [OembedGet n]))))"
proof (intro conjI impI allI)
  fix e
  assume "normalize_input_url ipv6 url = Inl e"
  then show "check_tweet ipv6 net tid url log = (Inl e, log)"
    by (simp add: check_tweet_def)
next
  show "extract_tweet_id (PyStr ''https://[x.com/a/status/1'') = Some ''1''"
    by (rule bad_bracket_extracted)
next
  show c: "check_tweet ipv6 net ''1'' (PyStr ''https://[x.com/a/status/1'') log = (Inl ValueError, log)"
    for log
    by (simp add: check_tweet_def bad_bracket_normalize)
  show "run_checks ipv6 net ts [PyStr ''https://[x.com/a/status/1''] =
     (Inl ValueError, [Classify ''1''])"
    by (simp add: run_checks_def bad_bracket_extracted c)
next
  assume "normalize_input_url ipv6 url = Inr None"
  then show "check_tweet ipv6 net tid url log =
        (Inr \<lparr>availability = ''invalid_url'', http_status = None,
              detail = Some ''URL could not be normalized'',
              oembed_status = None, checked_url = None\<rparr>, log)"
    by (simp add: check_tweet_def)
next
  fix exc
  assume n: "normalize_input_url ipv6 url = Inr (Some n)" and e: "oembed_get net log n = Inl exc"
  from n have "n \<noteq> []" by (rule normalize_nonempty)
  with n e show "check_tweet ipv6 net tid url log =
           (Inr \<lparr>availability = ''error'', http_status = None,
                 detail = Some (''oEmbed request failed: '' @ exc),
                 oembed_status = None, checked_url = None\<rparr>, log @ [OembedGet n])"
    by (simp add: check_tweet_def Let_def)
next
  fix status body
  assume n: "normalize_input_url ipv6 url = Inr (Some n)"
    and e: "oembed_get net log n = Inr (status, body) \<and> status \<noteq> 200"
  from n have "n \<noteq> []" by (rule normalize_nonempty)
  with n e show "\<exists>result. check_tweet ipv6 net tid url log = (Inr result, log @ [OembedGet n]) \<and>
            availability result = spec_phase1_table status \<and>
            http_status result = Some status \<and> oembed_status result = Some status \<and>
            checked_url result = None"
    by (simp add: check_tweet_def Let_def spec_phase1_table_def)
next
  fix body
  assume n: "normalize_input_url ipv6 url = Inr (Some n)"
    and e: "oembed_get net log n = Inr (200, body)"
  from n have "n \<noteq> []" by (rule normalize_nonempty)
  with n e show "check_tweet ipv6 net tid url log =
           (case body of
              JsonInvalid exc \<Rightarrow> direct_fetch ipv6 net tid n 200 PyNone (log @ [OembedGet n])
            | JsonNoObject \<Rightarrow> (Inl AttributeError, log @ [OembedGet n])
            | JsonObject canonical_url \<Rightarrow>
                direct_fetch ipv6 net tid n 200 canonical_url (log @ [OembedGet n]))"
    by (simp add: check_tweet_def Let_def split: json_body.splits)
qed

theorem C1_phase1_decision_table_witness:
  "check_tweet (\<lambda>h. False)
      \<lparr>oembed_get = (\<lambda>log u. Inr (404, JsonNoObject)), bot_get = (\<lambda>log u. Inr 200)\<rparr>
      ''1'' (PyStr ''sub.twitter.com/a/status/1'') [] =
     (Inr \<lparr>availability = ''invalid_url'', http_status = None,
           detail = Some ''URL could not be normalized'',
           oembed_status = None, checked_url = None\<rparr>, []) \<and>
   (\<exists>result.
      check_tweet (\<lambda>h. False)
        \<lparr>oembed_get = (\<lambda>log u. Inr (404, JsonNoObject)), bot_get = (\<lambda>log u. Inr 200)\<rparr>
        ''1'' (PyStr ''https://twitter.com/a/status/1'') [] =
        (Inr result, [OembedGet ''https://twitter.com/a/status/1'']) \<and>
      availability result = ''not_found'' \<and> http_status result = Some 404) \<and>
   check_tweet (\<lambda>h. False)
      \<lparr>oembed_get = (\<lambda>log u. Inr (404, JsonNoObject)), bot_get = (\<lambda>log u. Inr 200)\<rparr>
      ''2'' (PyStr ''http://[twitter.com/b/status/2'') [] = (Inl ValueError, [])"
proof -
  let ?net = "\<lparr>oembed_get = (\<lambda>log u. Inr (404, JsonNoObject)), bot_get = (\<lambda>log u. Inr 200)\<rparr>"
  have a: "normalize_input_url (\<lambda>h. False) (PyStr ''sub.twitter.com/a/status/1'') = Inr None"
    by (simp add: str_eval url_eval)
  have b: "normalize_input_url (\<lambda>h. False) (PyStr ''https://twitter.com/a/status/1'') =
      Inr (Some ''https://twitter.com/a/status/1'')"
    by (simp add: str_eval url_eval)
  have c: "oembed_get ?net [] ''https://twitter.com/a/status/1'' = Inr (404, JsonNoObject) \<and>
      (404::int) \<noteq> 200"
    by simp
  have t: "spec_phase1_table 404 = ''not_found''"
    by (simp add: spec_phase1_table_def)
  have r: "normalize_input_url (\<lambda>h. False) (PyStr ''http://[twitter.com/b/status/2'') = Inl ValueError"
    by (simp add: str_eval url_eval Let_def)
  from C1_phase1_decision_table [of "\<lambda>h. False" "PyStr ''http://[twitter.com/b/status/2''" ?net
      "''2''" "[]"] r
  have third: "check_tweet (\<lambda>h. False) ?net ''2'' (PyStr ''http://[twitter.com/b/status/2'') [] =
      (Inl ValueError, [])"
    by blast
  from C1_phase1_decision_table [of "\<lambda>h. False" "PyStr ''sub.twitter.com/a/status/1''" ?net
      "''1''" "[]"] a
  have first: "check_tweet (\<lambda>h. False) ?net ''1'' (PyStr ''sub.twitter.com/a/status/1'') [] =
     (Inr \<lparr>availability = ''invalid_url'', http_status = None,
           detail = Some ''URL could not be normalized'',
           oembed_status = None, checked_url = None\<rparr>, [])"
    by blast
  from C1_phase1_decision_table [of "\<lambda>h. False" "PyStr ''https://twitter.com/a/status/1''" ?net
      "''1''" "[]" _ "''https://twitter.com/a/status/1''"] b c
  obtain result where "check_tweet (\<lambda>h. False) ?net ''1''
        (PyStr ''https://twitter.com/a/status/1'') [] =
        (Inr result, [] @ [OembedGet ''https://twitter.com/a/status/1''])"
      "availability result = spec_phase1_table 404" "http_status result = Some 404"
    by blast
  with t first third show ?thesis by auto
qed


section \<open>Phase 2 of the classifier\<close>

lemma fetch_candidates_exhausted:
  "list_all (\<lambda>(c, s). \<not> decisive s) (responses (fetch_answers net urls log)) \<Longrightarrow>
   \<exists>st'. fetch_candidates net sc urls st log = (Inr st', log @ map BotGet urls) \<and>
     last_status st' = (if responses (fetch_answers net urls log) = [] then last_status st
                        else Some (snd (last (responses (fetch_answers net urls log))))) \<and>
     last_url st' = (if responses (fetch_answers net urls log) = [] then last_url st
                        else Some (fst (last (responses (fetch_answers net urls log))))) \<and>
     last_detail st' = (if responses (fetch_answers net urls log) = [] then last_detail st
                        else Some (spec_pending_detail sc (snd (last (responses (fetch_answers net urls log)))))) \<and>
     last_exception st' = (if failures (fetch_answers net urls log) = [] then last_exception st
                        else Some (last (failures (fetch_answers net urls log))))"
proof (induction urls arbitrary: st log)
  case Nil
  then show ?case by simp
next
  case (Cons c cs)
  show ?case
  proof (cases "bot_get net log c")
    case (Inl e)
    with Cons.prems have p: "list_all (\<lambda>(c, s). \<not> decisive s) (responses (fetch_answers net cs (log @ [BotGet c])))"
      by simp
    from Cons.IH [OF p, of "st\<lparr>last_exception := Some e\<rparr>"] Inl show ?thesis
      by auto
  next
    case (Inr s)
    with Cons.prems have nd: "\<not> decisive s"
      and p: "list_all (\<lambda>(c, s). \<not> decisive s) (responses (fetch_answers net cs (log @ [BotGet c])))"
      by simp_all
    show ?thesis
    proof (cases "s = 404")
      case True
      from Cons.IH [OF p, of "st\<lparr>last_status := Some s, last_url := Some c,
          last_detail := Some (spec_pending_detail sc s)\<rparr>"] Inr nd True
      show ?thesis
        by (auto simp: decisive_def Let_def spec_pending_detail_def)
    next
      case False
      from Cons.IH [OF p, of "st\<lparr>last_status := Some s, last_url := Some c,
          last_detail := Some (spec_pending_detail sc s)\<rparr>"] Inr nd False
      show ?thesis
        by (auto simp: decisive_def Let_def spec_pending_detail_def)
    qed
  qed
qed

text \<open>
  Claim C2.  When no candidate gets a response with a decisive status (200, 401, 403, 410,
  429, 451), phase 2 requests every candidate in order and then: if no candidate got a
  response, the outcome is \<open>error\<close> with the text of the last network failure in its
  detail; if some candidate got one, the outcome is \<open>not_found\<close> when the last status
  received was 404 and \<open>unknown\<close> otherwise, and it carries that last status, the URL that
  got it and the detail recorded for it.
\<close>

theorem C2_exhausted_candidates:
  assumes "build_fetch_urls ipv6 tid (PyStr n) canonical = Inr urls"
    and "list_all (\<lambda>(c, s). \<not> decisive s) (responses (fetch_answers net urls log))"
  shows "\<exists>result.
     direct_fetch ipv6 net tid n sc canonical log = (Inr result, log @ map BotGet urls) \<and>
     oembed_status result = Some sc \<and>
     (responses (fetch_answers net urls log) = [] \<longrightarrow>
        availability result = ''error'' \<and> http_status result = None \<and>
        checked_url result = None \<and>
        detail result =
          Some (if failures (fetch_answers net urls log) = [] \<or>
                   last (failures (fetch_answers net urls log)) = []
                then ''Direct fetch failed''
                else ''Direct fetch failed: '' @ last (failures (fetch_answers net urls log)))) \<and>
     (responses (fetch_answers net urls log) \<noteq> [] \<longrightarrow>
        availability result =
          (if snd (last (responses (fetch_answers net urls log))) = 404
           then ''not_found'' else ''unknown'') \<and>
        http_status result = Some (snd (last (responses (fetch_answers net urls log)))) \<and>
        checked_url result = Some (fst (last (responses (fetch_answers net urls log)))) \<and>
        detail result =
          Some (spec_pending_detail sc (snd (last (responses (fetch_answers net urls log))))))"
proof -
  from fetch_candidates_exhausted [OF assms(2), of sc initial_fetch_state]
  obtain st' where st: "fetch_candidates net sc urls initial_fetch_state log =
      (Inr st', log @ map BotGet urls)"
    and f0: "last_status st' = (if responses (fetch_answers net urls log) = []
                        then last_status initial_fetch_state
                        else Some (snd (last (responses (fetch_answers net urls log)))))"
     "last_url st' = (if responses (fetch_answers net urls log) = []
                        then last_url initial_fetch_state
                        else Some (fst (last (responses (fetch_answers net urls log)))))"
     "last_detail st' = (if responses (fetch_answers net urls log) = []
                        then last_detail initial_fetch_state
                        else Some (spec_pending_detail sc (snd (last (responses (fetch_answers net urls log))))))"
     "last_exception st' = (if failures (fetch_answers net urls log) = []
                        then last_exception initial_fetch_state
                        else Some (last (failures (fetch_answers net urls log))))"
    by blast
  note f = f0 [unfolded initial_fetch_state_def, simplified]
  have "direct_fetch ipv6 net tid n sc canonical log = (Inr (after_loop sc st'), log @ map BotGet urls)"
    using assms(1) st by (simp add: direct_fetch_def)
  moreover have "oembed_status (after_loop sc st') = Some sc"
    by (simp add: after_loop_def split: option.splits)
  moreover have "responses (fetch_answers net urls log) = [] \<longrightarrow>
        availability (after_loop sc st') = ''error'' \<and> http_status (after_loop sc st') = None \<and>
        checked_url (after_loop sc st') = None \<and>
        detail (after_loop sc st') =
          Some (if failures (fetch_answers net urls log) = [] \<or>
                   last (failures (fetch_answers net urls log)) = []
                then ''Direct fetch failed''
                else ''Direct fetch failed: '' @ last (failures (fetch_answers net urls log)))"
    using f by (simp add: after_loop_def)
  moreover have "responses (fetch_answers net urls log) \<noteq> [] \<longrightarrow>
        availability (after_loop sc st') =
          (if snd (last (responses (fetch_answers net urls log))) = 404
           then ''not_found'' else ''unknown'') \<and>
        http_status (after_loop sc st') = Some (snd (last (responses (fetch_answers net urls log)))) \<and>
        checked_url (after_loop sc st') = Some (fst (last (responses (fetch_answers net urls log)))) \<and>
        detail (after_loop sc st') =
          Some (spec_pending_detail sc (snd (last (responses (fetch_answers net urls log)))))"
    using f by (simp add: after_loop_def)
  ultimately show ?thesis by blast
qed
theorem C2_exhausted_candidates_witness:
  "(\<exists>result.
      direct_fetch (\<lambda>h. False)
        \<lparr>oembed_get = (\<lambda>log u. Inl []),
         bot_get = (\<lambda>log u. if log = [] then Inl ''timed out'' else Inr 404)\<rparr>
        ''1'' ''https://x.com/a/status/1'' 200 PyNone [] =
        (Inr result, [BotGet ''https://x.com/a/status/1'', BotGet ''https://x.com/i/web/status/1'',
                      BotGet ''https://x.com/i/status/1'']) \<and>
      availability result = ''not_found'' \<and> http_status result = Some 404 \<and>
      checked_url result = Some ''https://x.com/i/status/1'') \<and>
   (\<exists>result.
      direct_fetch (\<lambda>h. False)
        \<lparr>oembed_get = (\<lambda>log u. Inl []), bot_get = (\<lambda>log u. Inl ''timed out'')\<rparr>
        ''1'' ''https://x.com/a/status/1'' 200 PyNone [] =
        (Inr result, [BotGet ''https://x.com/a/status/1'', BotGet ''https://x.com/i/web/status/1'',
                      BotGet ''https://x.com/i/status/1'']) \<and>
      availability result = ''error'' \<and> http_status result = None \<and>
      detail result = Some ''Direct fetch failed: timed out'')"
proof -
  let ?net1 = "\<lparr>oembed_get = (\<lambda>log u. Inl []),
      bot_get = (\<lambda>log u. if log = [] then Inl ''timed out'' else Inr 404)\<rparr>"
  let ?net2 = "\<lparr>oembed_get = (\<lambda>log u. Inl []), bot_get = (\<lambda>log u. Inl ''timed out'')\<rparr>"
  let ?urls = "[''https://x.com/a/status/1'', ''https://x.com/i/web/status/1'',
      ''https://x.com/i/status/1'']"
  have b: "build_fetch_urls (\<lambda>h. False) ''1'' (PyStr ''https://x.com/a/status/1'') PyNone =
      Inr ?urls"
    by (simp add: str_eval url_eval cand_eval)
  have a1: "fetch_answers ?net1 ?urls [] =
      [(''https://x.com/a/status/1'', Inl ''timed out''),
       (''https://x.com/i/web/status/1'', Inr 404), (''https://x.com/i/status/1'', Inr 404)]"
    by simp
  have a2: "fetch_answers ?net2 ?urls [] =
      [(''https://x.com/a/status/1'', Inl ''timed out''),
       (''https://x.com/i/web/status/1'', Inl ''timed out''),
       (''https://x.com/i/status/1'', Inl ''timed out'')]"
    by simp
  have d1: "list_all (\<lambda>(c, s). \<not> decisive s) (responses (fetch_answers ?net1 ?urls []))"
    unfolding a1 by (simp add: decisive_def)
  have d2: "list_all (\<lambda>(c, s). \<not> decisive s) (responses (fetch_answers ?net2 ?urls []))"
    unfolding a2 by simp
  from C2_exhausted_candidates [OF b d1, of 200] have first: "\<exists>result.
      direct_fetch (\<lambda>h. False) ?net1 ''1'' ''https://x.com/a/status/1'' 200 PyNone [] =
        (Inr result, map BotGet ?urls) \<and>
      availability result = ''not_found'' \<and> http_status result = Some 404 \<and>
      checked_url result = Some ''https://x.com/i/status/1''"
    unfolding a1 by auto
  from C2_exhausted_candidates [OF b d2, of 200] have second: "\<exists>result.
      direct_fetch (\<lambda>h. False) ?net2 ''1'' ''https://x.com/a/status/1'' 200 PyNone [] =
        (Inr result, map BotGet ?urls) \<and>
      availability result = ''error'' \<and> http_status result = None \<and>
      detail result = Some ''Direct fetch failed: timed out''"
    unfolding a2 by auto
  from first second show ?thesis by simp
qed






section \<open>A body of the oEmbed response that is no JSON\<close>

text \<open>
  Claim C6.  The oEmbed endpoint answers 200 with a body that \<open>json()\<close> cannot parse, and
  every candidate is answered 404.  The classification goes on to phase 2 with the
  candidates of an absent canonical URL, and its outcome is the one of a body without a
  \<open>url\<close> field; but the detail of the outcome is the one of the 404, and the text that the
  code builds from the parse failure (\<open>detail_200\<close>) is nowhere in the outcome.
\<close>

theorem C6_parse_failure_not_in_outcome:
  "check_tweet (\<lambda>h. False)
      \<lparr>oembed_get = (\<lambda>log u. Inr (200, JsonInvalid ''Expecting value'')),
       bot_get = (\<lambda>log u. Inr 404)\<rparr>
      ''1'' (PyStr ''https://x.com/a/status/1'') [] =
     (Inr \<lparr>availability = ''not_found'', http_status = Some 404,
           detail = Some ''Tweet page returned 404 despite oEmbed success'',
           oembed_status = Some 200, checked_url = Some ''https://x.com/i/status/1''\<rparr>,
      [OembedGet ''https://x.com/a/status/1'', BotGet ''https://x.com/a/status/1'',
       BotGet ''https://x.com/i/web/status/1'', BotGet ''https://x.com/i/status/1'']) \<and>
   check_tweet (\<lambda>h. False)
      \<lparr>oembed_get = (\<lambda>log u. Inr (200, JsonInvalid ''Expecting value'')),
       bot_get = (\<lambda>log u. Inr 404)\<rparr>
      ''1'' (PyStr ''https://x.com/a/status/1'') [] =
   check_tweet (\<lambda>h. False)
      \<lparr>oembed_get = (\<lambda>log u. Inr (200, JsonObject PyNone)),
       bot_get = (\<lambda>log u. Inr 404)\<rparr>
      ''1'' (PyStr ''https://x.com/a/status/1'') [] \<and>
   detail_200 (JsonInvalid ''Expecting value'') =
     Some ''Failed to parse oEmbed payload: Expecting value''"
  by (simp add: str_eval url_eval cand_eval check_tweet_def direct_fetch_def
      initial_fetch_state_def after_loop_def detail_200_def Let_def)


section \<open>The cache of a batch\<close>

lemma classified_append [simp]: "classified (xs @ ys) = classified xs @ classified ys"
  by (induction xs rule: classified.induct) auto

lemma classified_BotGet [simp]: "classified (map BotGet urls) = []"
  by (induction urls) auto








section \<open>The pattern of the identifier\<close>

lemma plus_rests_all:
  "list_all P ds \<Longrightarrow> ds \<noteq> [] \<Longrightarrow> tl0 = [] \<or> \<not> P (hd tl0) \<Longrightarrow>
   plus_rests P (ds @ tl0) \<noteq> [] \<and> last (plus_rests P (ds @ tl0)) = tl0"
proof (induction ds)
  case Nil
  then show ?case by simp
next
  case (Cons d ds)
  show ?case
  proof (cases "ds = []")
    case True
    with Cons.prems show ?thesis by (cases tl0) auto
  next
    case False
    with Cons show ?thesis by auto
  qed
qed

lemma greedy_digits:
  assumes "list_all P ds" "ds \<noteq> []" "tl0 = [] \<or> \<not> P (hd tl0)"
  shows "\<exists>ms. rx_match (Group (PlusGreedy P)) (g, ds @ tl0) = (Some ds, tl0) # ms"
proof -
  from plus_rests_all [OF assms] have ne: "plus_rests P (ds @ tl0) \<noteq> []"
    and l: "last (plus_rests P (ds @ tl0)) = tl0" by auto
  from ne have "rev (plus_rests P (ds @ tl0)) =
      last (plus_rests P (ds @ tl0)) # rev (butlast (plus_rests P (ds @ tl0)))"
    by (cases "plus_rests P (ds @ tl0)" rule: rev_cases) simp_all
  with l have r: "rev (plus_rests P (ds @ tl0)) = tl0 # rev (butlast (plus_rests P (ds @ tl0)))"
    by simp
  have "rx_match (Group (PlusGreedy P)) (g, ds @ tl0) =
      map (\<lambda>(g', t). (Some (take (length (ds @ tl0) - length t) (ds @ tl0)), t))
        (map (Pair g) (rev (plus_rests P (ds @ tl0))))"
    by simp
  also have "\<dots> = (Some ds, tl0) #
      map (\<lambda>(g', t). (Some (take (length (ds @ tl0) - length t) (ds @ tl0)), t))
        (map (Pair g) (rev (butlast (plus_rests P (ds @ tl0)))))"
    unfolding r by simp
  finally show ?thesis by blast
qed

lemma status_tail_match:
  assumes "seg = ''/status/'' \<or> seg = ''/statuses/''"
    and "list_all is_digit ds" "ds \<noteq> []" "tl0 = [] \<or> \<not> is_digit (hd tl0)"
  shows "\<exists>ms. rx_match (Seq (Lit ''/status'') (Seq (Opt (Lit ''es'')) (Seq (Lit ''/'')
      (Group (PlusGreedy is_digit))))) (g, seg @ ds @ tl0) = (Some ds, tl0) # ms"
proof -
  from greedy_digits [OF assms(2-4)] obtain ms where
    m: "rx_match (Group (PlusGreedy is_digit)) (g, ds @ tl0) = (Some ds, tl0) # ms" by blast
  from assms(1) show ?thesis
  proof
    assume "seg = ''/status/''"
    with m show ?thesis by (simp add: startswith_def del: rx_match.simps(6,7))
  next
    assume "seg = ''/statuses/''"
    with m show ?thesis by (simp add: startswith_def del: rx_match.simps(6,7))
  qed
qed

lemma status_tail_fail:
  "c \<noteq> CHR ''/'' \<Longrightarrow> rx_match (Seq (Lit ''/status'') k) (g, c # s) = []"
  by (simp add: startswith_def)

lemma lazy_segment:
  assumes "user \<noteq> []" "CHR ''/'' \<notin> set user" "CHR 0x0A \<notin> set user"
  shows "\<exists>ms. rx_match (Seq (PlusLazy rx_dot) (Seq (Lit ''/status'') k)) (g, user @ rest) =
     rx_match (Seq (Lit ''/status'') k) (g, rest) @ ms"
  using assms
proof (induction user)
  case Nil
  then show ?case by simp
next
  case (Cons u us)
  show ?case
  proof (cases "us = []")
    case True
    with Cons.prems show ?thesis by (simp add: rx_dot_def)
  next
    case False
    then obtain v vs where us: "us = v # vs" by (cases us) auto
    with Cons.prems have "v \<noteq> CHR ''/''" by auto
    then have f: "rx_match (Seq (Lit ''/status'') k) (g, v # vs @ rest) = []"
      by (rule status_tail_fail)
    from Cons.IH False Cons.prems obtain ms where
      ih: "rx_match (Seq (PlusLazy rx_dot) (Seq (Lit ''/status'') k)) (g, us @ rest) =
        rx_match (Seq (Lit ''/status'') k) (g, rest) @ ms" by auto
    from Cons.prems have "rx_dot u" by (auto simp: rx_dot_def)
    then have "rx_match (Seq (PlusLazy rx_dot) (Seq (Lit ''/status'') k)) (g, (u # us) @ rest) =
      rx_match (Seq (Lit ''/status'') k) (g, us @ rest) @
      rx_match (Seq (PlusLazy rx_dot) (Seq (Lit ''/status'') k)) (g, us @ rest)"
      by simp
    with f ih us show ?thesis by simp
  qed
qed

lemma head_match:
  assumes "sch = [] \<or> sch = ''http://'' \<or> sch = ''https://''"
    and "www = [] \<or> www = ''www.''"
    and "dm = ''twitter'' \<or> dm = ''x''"
  shows "rx_match (Seq (Opt (Seq (Lit ''http'') (Seq (Opt (Lit ''s'')) (Lit ''://''))))
    (Seq (Opt (Lit ''www.''))
    (Seq (Alt (Lit ''twitter'') (Lit ''x''))
    (Seq (Lit ''.com/'') t)))) (g, sch @ www @ dm @ ''.com/'' @ r) = rx_match t (g, r)"
  using assms by (elim disjE) (simp_all add: startswith_def)

lemma tweet_url_match:
  assumes "sch = [] \<or> sch = ''http://'' \<or> sch = ''https://''"
    and "www = [] \<or> www = ''www.''"
    and "dm = ''twitter'' \<or> dm = ''x''"
    and "user \<noteq> []" "CHR ''/'' \<notin> set user" "CHR 0x0A \<notin> set user"
    and "seg = ''/status/'' \<or> seg = ''/statuses/''"
    and "list_all is_digit ds" "ds \<noteq> []" "tl0 = [] \<or> \<not> is_digit (hd tl0)"
  shows "\<exists>rest. rx_match_at TWEET_URL_RE (sch @ www @ dm @ ''.com/'' @ user @ seg @ ds @ tl0) =
    Some (Some ds, rest)"
proof -
  let ?k = "Seq (Opt (Lit ''es'')) (Seq (Lit ''/'') (Group (PlusGreedy is_digit)))"
  from status_tail_match [OF assms(7-10)] obtain ms where
    a: "rx_match (Seq (Lit ''/status'') ?k) (None, seg @ ds @ tl0) = (Some ds, tl0) # ms" by blast
  from lazy_segment [OF assms(4-6), of ?k None "seg @ ds @ tl0"] obtain ms' where
    b: "rx_match (Seq (PlusLazy rx_dot) (Seq (Lit ''/status'') ?k)) (None, user @ seg @ ds @ tl0) =
      rx_match (Seq (Lit ''/status'') ?k) (None, seg @ ds @ tl0) @ ms'" by blast
  have "rx_match TWEET_URL_RE (None, sch @ www @ dm @ ''.com/'' @ user @ seg @ ds @ tl0) =
     rx_match (Seq (PlusLazy rx_dot) (Seq (Lit ''/status'') ?k)) (None, user @ seg @ ds @ tl0)"
    unfolding TWEET_URL_RE_def by (rule head_match [OF assms(1-3)])
  with a b show ?thesis by (simp add: rx_match_at_def)
qed

lemma lower_char_bit5:
  "lower_char c = Char b0 b1 b2 b3 b4 True b6 b7 \<Longrightarrow>
   c = Char b0 b1 b2 b3 b4 True b6 b7 \<or> (c = Char b0 b1 b2 b3 b4 False b6 b7 \<and> is_upper c)"
  by (cases c) (auto simp: lower_char_def split: if_splits)

lemma lower_char_cases:
  "lower_char c = CHR ''h'' \<Longrightarrow> c = CHR ''h'' \<or> c = CHR ''H''"
  "lower_char c = CHR ''t'' \<Longrightarrow> c = CHR ''t'' \<or> c = CHR ''T''"
  "lower_char c = CHR ''p'' \<Longrightarrow> c = CHR ''p'' \<or> c = CHR ''P''"
  "lower_char c = CHR ''s'' \<Longrightarrow> c = CHR ''s'' \<or> c = CHR ''S''"
  by (auto dest!: lower_char_bit5)

lemma lower_char_punct:
  "lower_char c = CHR '':'' \<Longrightarrow> c = CHR '':''"
  "lower_char c = CHR ''/'' \<Longrightarrow> c = CHR ''/''"
  by (auto dest!: lower_char_bit5 simp: is_upper_def)

lemma ci_https_chars:
  assumes "py_lower sch = ''https://''"
  obtains c1 c2 c3 c4 c5 where "sch = [c1, c2, c3, c4, c5, CHR '':'', CHR ''/'', CHR ''/'']"
    "c1 = CHR ''h'' \<or> c1 = CHR ''H''" "c2 = CHR ''t'' \<or> c2 = CHR ''T''"
    "c3 = CHR ''t'' \<or> c3 = CHR ''T''" "c4 = CHR ''p'' \<or> c4 = CHR ''P''"
    "c5 = CHR ''s'' \<or> c5 = CHR ''S''"
proof -
  from assms obtain c1 c2 c3 c4 c5 c6 c7 c8 where s: "sch = [c1, c2, c3, c4, c5, c6, c7, c8]"
    and l: "lower_char c1 = CHR ''h''" "lower_char c2 = CHR ''t''" "lower_char c3 = CHR ''t''"
      "lower_char c4 = CHR ''p''" "lower_char c5 = CHR ''s''" "lower_char c6 = CHR '':''"
      "lower_char c7 = CHR ''/''" "lower_char c8 = CHR ''/''"
    unfolding py_lower_def by (auto simp: map_eq_Cons_conv)
  from l(6-8) have "c6 = CHR '':''" "c7 = CHR ''/''" "c8 = CHR ''/''"
    by (simp_all add: lower_char_punct)
  with s l(1-5) that show thesis
    by (blast dest: lower_char_cases)
qed

lemma ci_http_chars:
  assumes "py_lower sch = ''http://''"
  obtains c1 c2 c3 c4 where "sch = [c1, c2, c3, c4, CHR '':'', CHR ''/'', CHR ''/'']"
    "c1 = CHR ''h'' \<or> c1 = CHR ''H''" "c2 = CHR ''t'' \<or> c2 = CHR ''T''"
    "c3 = CHR ''t'' \<or> c3 = CHR ''T''" "c4 = CHR ''p'' \<or> c4 = CHR ''P''"
proof -
  from assms obtain c1 c2 c3 c4 c6 c7 c8 where s: "sch = [c1, c2, c3, c4, c6, c7, c8]"
    and l: "lower_char c1 = CHR ''h''" "lower_char c2 = CHR ''t''" "lower_char c3 = CHR ''t''"
      "lower_char c4 = CHR ''p''" "lower_char c6 = CHR '':''"
      "lower_char c7 = CHR ''/''" "lower_char c8 = CHR ''/''"
    unfolding py_lower_def by (auto simp: map_eq_Cons_conv)
  from l(5-7) have "c6 = CHR '':''" "c7 = CHR ''/''" "c8 = CHR ''/''"
    by (simp_all add: lower_char_punct)
  with s l(1-4) that show thesis
    by (blast dest: lower_char_cases)
qed

lemma rx_search_hit: "rx_match_at r s = Some m \<Longrightarrow> rx_search r s = Some m"
  by (cases s) simp_all

lemma rx_search_miss: "rx_match_at r (c # s) = None \<Longrightarrow> rx_search r (c # s) = rx_search r s"
  by simp

lemma re_fail_first:
  "c \<noteq> CHR ''h'' \<Longrightarrow> c \<noteq> CHR ''w'' \<Longrightarrow> c \<noteq> CHR ''t'' \<Longrightarrow> c \<noteq> CHR ''x'' \<Longrightarrow>
   rx_match_at TWEET_URL_RE (c # s) = None"
  by (simp add: TWEET_URL_RE_def rx_match_at_def startswith_def)

lemma re_fail_t:
  "c2 \<noteq> CHR ''w'' \<Longrightarrow> rx_match_at TWEET_URL_RE (CHR ''t'' # c2 # s) = None"
  by (simp add: TWEET_URL_RE_def rx_match_at_def startswith_def)

lemma re_fail_h_https:
  "c5 = CHR ''s'' \<or> c5 = CHR ''S'' \<Longrightarrow>
   \<not> (c2 = CHR ''t'' \<and> c3 = CHR ''t'' \<and> c4 = CHR ''p'' \<and> c5 = CHR ''s'') \<Longrightarrow>
   rx_match_at TWEET_URL_RE (CHR ''h'' # c2 # c3 # c4 # c5 # CHR '':'' # CHR ''/'' # CHR ''/'' # s) = None"
  by (auto simp: TWEET_URL_RE_def rx_match_at_def startswith_def)

lemma re_fail_h_http:
  "\<not> (c2 = CHR ''t'' \<and> c3 = CHR ''t'' \<and> c4 = CHR ''p'') \<Longrightarrow>
   rx_match_at TWEET_URL_RE (CHR ''h'' # c2 # c3 # c4 # CHR '':'' # CHR ''/'' # CHR ''/'' # s) = None"
  by (auto simp: TWEET_URL_RE_def rx_match_at_def startswith_def)

lemma ci_https_skip:
  assumes "py_lower sch = ''https://''" "sch \<noteq> ''https://''"
  shows "rx_search TWEET_URL_RE (sch @ s) = rx_search TWEET_URL_RE s"
proof -
  from assms(1) obtain c1 c2 c3 c4 c5 where s: "sch = [c1, c2, c3, c4, c5, CHR '':'', CHR ''/'', CHR ''/'']"
    and c: "c1 = CHR ''h'' \<or> c1 = CHR ''H''" "c2 = CHR ''t'' \<or> c2 = CHR ''T''"
    "c3 = CHR ''t'' \<or> c3 = CHR ''T''" "c4 = CHR ''p'' \<or> c4 = CHR ''P''"
    "c5 = CHR ''s'' \<or> c5 = CHR ''S''"
    by (rule ci_https_chars)
  from assms(2) s have ne: "\<not> (c1 = CHR ''h'' \<and> c2 = CHR ''t'' \<and> c3 = CHR ''t'' \<and> c4 = CHR ''p'' \<and> c5 = CHR ''s'')"
    by auto
  have p0: "rx_match_at TWEET_URL_RE (c1 # c2 # c3 # c4 # c5 # CHR '':'' # CHR ''/'' # CHR ''/'' # s) = None"
  proof (cases "c1 = CHR ''h''")
    case True
    with ne have n2: "\<not> (c2 = CHR ''t'' \<and> c3 = CHR ''t'' \<and> c4 = CHR ''p'' \<and> c5 = CHR ''s'')"
      by simp
    from re_fail_h_https [OF c(5) n2] True show ?thesis by simp
  next
    case False
    with c(1) show ?thesis by (auto intro!: re_fail_first)
  qed
  have p1: "rx_match_at TWEET_URL_RE (c2 # c3 # c4 # c5 # CHR '':'' # CHR ''/'' # CHR ''/'' # s) = None"
    using c(2,3) by (auto intro!: re_fail_first re_fail_t)
  have p2: "rx_match_at TWEET_URL_RE (c3 # c4 # c5 # CHR '':'' # CHR ''/'' # CHR ''/'' # s) = None"
    using c(3,4) by (auto intro!: re_fail_first re_fail_t)
  have p3: "rx_match_at TWEET_URL_RE (c4 # c5 # CHR '':'' # CHR ''/'' # CHR ''/'' # s) = None"
    using c(4) by (auto intro!: re_fail_first)
  have p4: "rx_match_at TWEET_URL_RE (c5 # CHR '':'' # CHR ''/'' # CHR ''/'' # s) = None"
    using c(5) by (auto intro!: re_fail_first)
  have p5: "rx_match_at TWEET_URL_RE (CHR '':'' # CHR ''/'' # CHR ''/'' # s) = None"
    "rx_match_at TWEET_URL_RE (CHR ''/'' # CHR ''/'' # s) = None"
    "rx_match_at TWEET_URL_RE (CHR ''/'' # s) = None"
    by (auto intro!: re_fail_first)
  show ?thesis
    unfolding s by (simp only: append_Cons append_Nil rx_search_miss p0 p1 p2 p3 p4 p5)
qed

lemma ci_http_skip:
  assumes "py_lower sch = ''http://''" "sch \<noteq> ''http://''"
  shows "rx_search TWEET_URL_RE (sch @ s) = rx_search TWEET_URL_RE s"
proof -
  from assms(1) obtain c1 c2 c3 c4 where s: "sch = [c1, c2, c3, c4, CHR '':'', CHR ''/'', CHR ''/'']"
    and c: "c1 = CHR ''h'' \<or> c1 = CHR ''H''" "c2 = CHR ''t'' \<or> c2 = CHR ''T''"
    "c3 = CHR ''t'' \<or> c3 = CHR ''T''" "c4 = CHR ''p'' \<or> c4 = CHR ''P''"
    by (rule ci_http_chars)
  from assms(2) s have ne: "\<not> (c1 = CHR ''h'' \<and> c2 = CHR ''t'' \<and> c3 = CHR ''t'' \<and> c4 = CHR ''p'')"
    by auto
  have p0: "rx_match_at TWEET_URL_RE (c1 # c2 # c3 # c4 # CHR '':'' # CHR ''/'' # CHR ''/'' # s) = None"
  proof (cases "c1 = CHR ''h''")
    case True
    with ne have n2: "\<not> (c2 = CHR ''t'' \<and> c3 = CHR ''t'' \<and> c4 = CHR ''p'')"
      by simp
    from re_fail_h_http [OF n2] True show ?thesis by simp
  next
    case False
    with c(1) show ?thesis by (auto intro!: re_fail_first)
  qed
  have p1: "rx_match_at TWEET_URL_RE (c2 # c3 # c4 # CHR '':'' # CHR ''/'' # CHR ''/'' # s) = None"
    using c(2,3) by (auto intro!: re_fail_first re_fail_t)
  have p2: "rx_match_at TWEET_URL_RE (c3 # c4 # CHR '':'' # CHR ''/'' # CHR ''/'' # s) = None"
    using c(3,4) by (auto intro!: re_fail_first re_fail_t)
  have p3: "rx_match_at TWEET_URL_RE (c4 # CHR '':'' # CHR ''/'' # CHR ''/'' # s) = None"
    using c(4) by (auto intro!: re_fail_first)
  have p5: "rx_match_at TWEET_URL_RE (CHR '':'' # CHR ''/'' # CHR ''/'' # s) = None"
    "rx_match_at TWEET_URL_RE (CHR ''/'' # CHR ''/'' # s) = None"
    "rx_match_at TWEET_URL_RE (CHR ''/'' # s) = None"
    by (auto intro!: re_fail_first)
  show ?thesis
    unfolding s by (simp only: append_Cons append_Nil rx_search_miss p0 p1 p2 p3 p5)
qed

text \<open>
  The URLs that the pattern is written for.  For a URL made of an optional scheme
  \<open>http://\<close> or \<open>https://\<close> in any case, an optional \<open>www.\<close>, the host \<open>twitter.com\<close> or
  \<open>x.com\<close> in lower case, one path segment (not empty, without \<open>/\<close> and newline),
  \<open>/status/\<close> or \<open>/statuses/\<close>, a run of digits and then the end or a character that is
  no digit (a query string, say), \<open>extract_tweet_id\<close> returns the run of digits; for a
  value that is no string it returns \<open>None\<close>.
\<close>

lemma extract_lowercase_host:
  assumes "sch = [] \<or> py_lower sch = ''http://'' \<or> py_lower sch = ''https://''"
    and "www = [] \<or> www = ''www.''"
    and "dm = ''twitter'' \<or> dm = ''x''"
    and "user \<noteq> []" "CHR ''/'' \<notin> set user" "CHR 0x0A \<notin> set user"
    and "seg = ''/status/'' \<or> seg = ''/statuses/''"
    and "list_all is_digit ds" "ds \<noteq> []" "tl0 = [] \<or> \<not> is_digit (hd tl0)"
  shows "extract_tweet_id (PyStr (sch @ www @ dm @ ''.com/'' @ user @ seg @ ds @ tl0)) = Some ds \<and>
    extract_tweet_id PyNone = None \<and> extract_tweet_id (PyOther b) = None"
proof -
  let ?rest = "www @ dm @ ''.com/'' @ user @ seg @ ds @ tl0"
  have low: "\<And>s. s = [] \<or> s = ''http://'' \<or> s = ''https://'' \<Longrightarrow>
      \<exists>r. rx_search TWEET_URL_RE (s @ ?rest) = Some (Some ds, r)"
  proof -
    fix s :: string assume "s = [] \<or> s = ''http://'' \<or> s = ''https://''"
    from tweet_url_match [OF this assms(2-10)] obtain r where
      "rx_match_at TWEET_URL_RE (s @ ?rest) = Some (Some ds, r)" by blast
    then have "rx_search TWEET_URL_RE (s @ ?rest) = Some (Some ds, r)" by (rule rx_search_hit)
    then show "\<exists>r. rx_search TWEET_URL_RE (s @ ?rest) = Some (Some ds, r)" by blast
  qed
  have "\<exists>r. rx_search TWEET_URL_RE (sch @ ?rest) = Some (Some ds, r)"
  proof (cases "sch = [] \<or> sch = ''http://'' \<or> sch = ''https://''")
    case True
    then show ?thesis by (rule low)
  next
    case False
    with assms(1) have "rx_search TWEET_URL_RE (sch @ ?rest) = rx_search TWEET_URL_RE ([] @ ?rest)"
      using ci_https_skip [of sch ?rest] ci_http_skip [of sch ?rest] by auto
    with low [of "[]"] show ?thesis by simp
  qed
  then show ?thesis by (auto simp: extract_tweet_id_def)
qed

lemma extract_lowercase_host_example:
  "extract_tweet_id (PyStr ''HTTPS://www.x.com/acct/statuses/456?s=20'') = Some ''456''"
  using extract_lowercase_host [of "''HTTPS://''" "''www.''" "''x''" "''acct''" "''/statuses/''"
      "''456''" "''?s=20''" False]
  by (simp add: py_lower_def lower_char_def is_upper_def is_digit_def)

text \<open>
  Claim C5.  The claim has the host matched in any letter case.  The pattern is compiled
  without \<open>re.IGNORECASE\<close>, so \<open>extract_tweet_id\<close> finds no identifier in
  \<open>https://TWITTER.COM/user/status/123\<close>, while it finds \<open>123\<close> when the host is in lower
  case.  \<open>normalize_input_url\<close> lower-cases the host and accepts the same URL; the batch
  never gets that far, and reports the row as \<open>invalid_url\<close> without any request.
\<close>

theorem C5_uppercase_host_not_extracted:
  "extract_tweet_id (PyStr ''https://TWITTER.COM/user/status/123'') = None \<and>
   extract_tweet_id (PyStr ''https://twitter.com/user/status/123'') = Some ''123'' \<and>
   normalize_input_url ipv6 (PyStr ''https://TWITTER.COM/user/status/123'') =
     Inr (Some ''https://twitter.com/user/status/123'') \<and>
   run_checks ipv6 net ts [PyStr ''https://TWITTER.COM/user/status/123''] =
     (Inr [invalid_record ts], [])"
proof -
  have a: "extract_tweet_id (PyStr ''https://TWITTER.COM/user/status/123'') = None"
    by (simp add: extract_tweet_id_def TWEET_URL_RE_def str_eval rx_match_at_def)
  have b: "extract_tweet_id (PyStr ''https://twitter.com/user/status/123'') = Some ''123''"
    by (simp add: extract_tweet_id_def TWEET_URL_RE_def str_eval rx_match_at_def)
  have c: "normalize_input_url ipv6 (PyStr ''https://TWITTER.COM/user/status/123'') =
     Inr (Some ''https://twitter.com/user/status/123'')"
    by (simp add: str_eval url_eval Let_def)
  have d: "run_checks ipv6 net ts [PyStr ''https://TWITTER.COM/user/status/123''] =
     (Inr [invalid_record ts], [])"
    by (simp add: run_checks_def a)
  from a b c d show ?thesis by simp
qed


section \<open>Search is not anchored\<close>

lemma plus_rests_suffix: "t \<in> set (plus_rests P s) \<Longrightarrow> length t \<le> length s"
  by (induction s) (auto split: if_splits)

lemma plus_rests_mono: "t \<in> set (plus_rests P s) \<Longrightarrow> t @ post \<in> set (plus_rests P (s @ post))"
  by (induction s) (auto split: if_splits)

lemma rx_match_shorter:
  "(g', t) \<in> set (rx_match r (g, s)) \<Longrightarrow> length t \<le> length s"
proof (induction r arbitrary: g s g' t)
  case (Lit w)
  then show ?case by (auto simp: startswith_def split: if_splits)
next
  case (Seq a b)
  then show ?case by fastforce
next
  case (PlusLazy P)
  then show ?case by (auto dest: plus_rests_suffix)
next
  case (PlusGreedy P)
  then show ?case by (auto dest: plus_rests_suffix)
next
  case (Group a)
  then show ?case by auto
qed (auto split: if_splits)

lemma rx_match_mono:
  "rx_no_end r \<Longrightarrow> (g', t) \<in> set (rx_match r (g, s)) \<Longrightarrow>
   (g', t @ post) \<in> set (rx_match r (g, s @ post))"
proof (induction r arbitrary: g s g' t)
  case (Lit w)
  then have w: "take (length w) s = w" and t: "t = drop (length w) s" and g: "g' = g"
    by (auto simp: startswith_def split: if_splits)
  have "length (take (length w) s) \<le> length s" by simp
  with w have "length w \<le> length s" by simp
  with w t g show ?case by (simp add: startswith_def)
next
  case (Seq a b)
  from Seq.prems(2) obtain g1 t1 where 1: "(g1, t1) \<in> set (rx_match a (g, s))"
    and 2: "(g', t) \<in> set (rx_match b (g1, t1))" by auto
  from Seq.IH(1) [OF _ 1] Seq.prems(1) have "(g1, t1 @ post) \<in> set (rx_match a (g, s @ post))" by simp
  moreover from Seq.IH(2) [OF _ 2] Seq.prems(1) have "(g', t @ post) \<in> set (rx_match b (g1, t1 @ post))" by simp
  ultimately show ?case by force
next
  case (Alt a b)
  then show ?case by auto
next
  case (Opt a)
  then show ?case by auto
next
  case (PlusLazy P)
  then show ?case by (auto dest: plus_rests_mono)
next
  case (PlusGreedy P)
  then show ?case by (auto dest: plus_rests_mono)
next
  case (Group a)
  from Group.prems(2) obtain g0 where 1: "(g0, t) \<in> set (rx_match a (g, s))"
    and g': "g' = Some (take (length s - length t) s)" by auto
  from rx_match_shorter [OF 1] have le: "length t \<le> length s" .
  from Group.IH [OF _ 1] Group.prems(1) have "(g0, t @ post) \<in> set (rx_match a (g, s @ post))" by simp
  then have "(Some (take (length (s @ post) - length (t @ post)) (s @ post)), t @ post)
      \<in> set (rx_match (Group a) (g, s @ post))"
    by force
  with le g' show ?case by simp
next
  case EndOfString
  then show ?case by simp
qed

lemma rx_match_at_mono:
  assumes "rx_no_end r" "rx_match_at r s \<noteq> None"
  shows "rx_match_at r (s @ post) \<noteq> None"
proof -
  from assms(2) obtain m ms where "rx_match r (None, s) = m # ms"
    by (auto simp: rx_match_at_def split: list.splits)
  then have "(fst m, snd m) \<in> set (rx_match r (None, s))" by simp
  from rx_match_mono [OF assms(1) this, of post]
  have "(fst m, snd m @ post) \<in> set (rx_match r (None, s @ post))" .
  then have "rx_match r (None, s @ post) \<noteq> []" by (cases "rx_match r (None, s @ post)") auto
  then show ?thesis by (auto simp: rx_match_at_def split: list.splits)
qed

lemma rx_search_hit_some: "rx_match_at r s \<noteq> None \<Longrightarrow> rx_search r s \<noteq> None"
  by (cases s) auto

lemma rx_search_mono_post:
  "rx_no_end r \<Longrightarrow> rx_search r s \<noteq> None \<Longrightarrow> rx_search r (s @ post) \<noteq> None"
proof (induction s)
  case Nil
  then have "rx_match_at r [] \<noteq> None" by simp
  from rx_match_at_mono [OF Nil.prems(1) this, of post] show ?case
    by (simp add: rx_search_hit_some)
next
  case (Cons c cs)
  show ?case
  proof (cases "rx_match_at r (c # cs)")
    case None
    with Cons have "rx_search r (cs @ post) \<noteq> None" by simp
    then show ?thesis by (auto split: option.splits)
  next
    case (Some m)
    then have "rx_match_at r (c # cs) \<noteq> None" by simp
    from rx_match_at_mono [OF Cons.prems(1) this, of post]
    have "rx_match_at r ((c # cs) @ post) \<noteq> None" .
    then show ?thesis by (rule rx_search_hit_some)
  qed
qed

lemma rx_search_mono_pre: "rx_search r s \<noteq> None \<Longrightarrow> rx_search r (pre @ s) \<noteq> None"
  by (induction pre) (auto split: option.splits)

lemma seq_last:
  "z \<in> set (rx_match (Seq a b) x) \<Longrightarrow> (\<And>y. z \<in> set (rx_match b y) \<Longrightarrow> Q) \<Longrightarrow> Q"
  by auto

lemma tweet_url_captures:
  assumes "(g', t) \<in> set (rx_match TWEET_URL_RE (g, s))"
  shows "g' \<noteq> None"
  using assms unfolding TWEET_URL_RE_def
  apply (elim seq_last)
  apply (case_tac y)
  apply auto
  done

lemma tweet_url_no_end: "rx_no_end TWEET_URL_RE"
  by (simp add: TWEET_URL_RE_def)

lemma rx_search_result:
  "rx_search r s = Some m \<Longrightarrow> \<exists>s'. m \<in> set (rx_match r (None, s'))"
proof (induction s)
  case Nil
  then show ?case by (auto simp: rx_match_at_def split: list.splits intro: exI [of _ "[]"])
next
  case (Cons c cs)
  show ?case
  proof (cases "rx_match_at r (c # cs)")
    case None
    with Cons show ?thesis by simp
  next
    case (Some m')
    with Cons.prems have "m' = m" by simp
    with Some have "m \<in> set (rx_match r (None, c # cs))"
      by (auto simp: rx_match_at_def split: list.splits)
    then show ?thesis by blast
  qed
qed

lemma extract_some_iff:
  "(\<exists>d. extract_tweet_id (PyStr s) = Some d) \<longleftrightarrow> rx_search TWEET_URL_RE s \<noteq> None"
proof
  assume "\<exists>d. extract_tweet_id (PyStr s) = Some d"
  then show "rx_search TWEET_URL_RE s \<noteq> None"
    by (auto simp: extract_tweet_id_def split: option.splits)
next
  assume "rx_search TWEET_URL_RE s \<noteq> None"
  then obtain g t where m: "rx_search TWEET_URL_RE s = Some (g, t)" by auto
  from rx_search_result [OF this] tweet_url_captures have "g \<noteq> None" by blast
  with m show "\<exists>d. extract_tweet_id (PyStr s) = Some d"
    by (auto simp: extract_tweet_id_def)
qed

lemma extract_unanchored:
  assumes "extract_tweet_id (PyStr u) = Some d"
  shows "\<exists>d'. extract_tweet_id (PyStr (pre @ u @ post)) = Some d'"
proof -
  from assms have "rx_search TWEET_URL_RE u \<noteq> None" using extract_some_iff by blast
  then have "rx_search TWEET_URL_RE (u @ post) \<noteq> None"
    by (rule rx_search_mono_post [OF tweet_url_no_end])
  then have "rx_search TWEET_URL_RE (pre @ u @ post) \<noteq> None"
    by (rule rx_search_mono_pre)
  then show ?thesis using extract_some_iff by blast
qed


section \<open>Parsing and normalising URLs\<close>

lemma scheme_char_safe:
  "scheme_char c \<Longrightarrow> \<not> unsafe_byte c \<and> \<not> c0_or_space c \<and> c \<noteq> CHR '':''"
  by (auto simp: scheme_char_def ascii_alpha_def is_digit_def unsafe_byte_def c0_or_space_def)

lemma takeWhile_stop:
  "\<forall>x\<in>set xs. P x \<Longrightarrow> \<not> P y \<Longrightarrow> takeWhile P (xs @ y # ys) = xs"
  by (induction xs) auto

lemma dropWhile_stop:
  "\<forall>x\<in>set xs. P x \<Longrightarrow> \<not> P y \<Longrightarrow> dropWhile P (xs @ y # ys) = y # ys"
  by (induction xs) auto

lemma urlsplit_scheme:
  assumes "sc \<noteq> []" "ascii_alpha (hd sc)" "list_all scheme_char sc"
  shows "urlsplit ipv6 (sc @ ''://'' @ rest) =
    url_body ipv6 (py_lower sc) (filter (\<lambda>c. \<not> unsafe_byte c) rest)"
proof -
  let ?b = "filter (\<lambda>c. \<not> unsafe_byte c) rest"
  let ?u = "sc @ CHR '':'' # CHR ''/'' # CHR ''/'' # rest"
  let ?v = "sc @ CHR '':'' # CHR ''/'' # CHR ''/'' # ?b"
  from assms(3) have safe: "\<forall>c\<in>set sc. \<not> unsafe_byte c \<and> \<not> c0_or_space c \<and> c \<noteq> CHR '':''"
    by (auto simp: list_all_iff dest: scheme_char_safe)
  from assms(1) obtain c cs where sc: "sc = c # cs" by (cases sc) auto
  with safe have "\<not> c0_or_space c" by simp
  with sc have l: "py_lstrip c0_or_space ?u = ?u"
    by (simp add: py_lstrip_def)
  from safe have f: "filter (\<lambda>c. \<not> unsafe_byte c) ?u = ?v"
    by (auto simp: unsafe_byte_def filter_id_conv)
  from safe have bf: "before_first CHR '':'' ?v = sc"
    unfolding before_first_def by (intro takeWhile_stop) auto
  from safe have af: "after_first CHR '':'' ?v = CHR ''/'' # CHR ''/'' # ?b"
    unfolding after_first_def
    using dropWhile_stop [of sc "\<lambda>x. x \<noteq> CHR '':''" "CHR '':''" "CHR ''/'' # CHR ''/'' # ?b"]
    by simp
  have ss: "split_scheme ?v = (py_lower sc, CHR ''/'' # CHR ''/'' # ?b)"
    unfolding split_scheme_def bf af using assms sc by (simp add: Let_def)
  have "urlsplit ipv6 ?u = url_body ipv6 (py_lower sc) ?b"
    apply (simp only: urlsplit_def Let_def l f ss)
    apply (simp add: url_body_def splitnetloc_def Let_def)
    done
  then show ?thesis by simp
qed

lemma ci_letter_h:
  "c = CHR ''h'' \<or> c = CHR ''H'' \<Longrightarrow> scheme_char c \<and> ascii_alpha c \<and> lower_char c = CHR ''h''"
  by (erule disjE) (simp_all add: scheme_char_def ascii_alpha_def lower_char_def is_upper_def)

lemma ci_letter_t:
  "c = CHR ''t'' \<or> c = CHR ''T'' \<Longrightarrow> scheme_char c \<and> ascii_alpha c \<and> lower_char c = CHR ''t''"
  by (erule disjE) (simp_all add: scheme_char_def ascii_alpha_def lower_char_def is_upper_def)

lemma ci_letter_p:
  "c = CHR ''p'' \<or> c = CHR ''P'' \<Longrightarrow> scheme_char c \<and> ascii_alpha c \<and> lower_char c = CHR ''p''"
  by (erule disjE) (simp_all add: scheme_char_def ascii_alpha_def lower_char_def is_upper_def)

lemma ci_letter_s:
  "c = CHR ''s'' \<or> c = CHR ''S'' \<Longrightarrow> scheme_char c \<and> ascii_alpha c \<and> lower_char c = CHR ''s''"
  by (erule disjE) (simp_all add: scheme_char_def ascii_alpha_def lower_char_def is_upper_def)

lemma ci_http_form:
  assumes "py_lower pre = ''http://''"
  shows "\<exists>sc. pre = sc @ ''://'' \<and> sc \<noteq> [] \<and> ascii_alpha (hd sc) \<and> list_all scheme_char sc \<and>
    py_lower sc = ''http''"
proof -
  from assms obtain c1 c2 c3 c4 where s: "pre = [c1, c2, c3, c4, CHR '':'', CHR ''/'', CHR ''/'']"
    and c: "c1 = CHR ''h'' \<or> c1 = CHR ''H''" "c2 = CHR ''t'' \<or> c2 = CHR ''T''"
    "c3 = CHR ''t'' \<or> c3 = CHR ''T''" "c4 = CHR ''p'' \<or> c4 = CHR ''P''"
    by (rule ci_http_chars)
  note l = ci_letter_h [OF c(1)] ci_letter_t [OF c(2)] ci_letter_t [OF c(3)]
    ci_letter_p [OF c(4)]
  show ?thesis
    by (rule exI [of _ "[c1, c2, c3, c4]"]) (simp add: s l py_lower_def)
qed

lemma ci_https_form:
  assumes "py_lower pre = ''https://''"
  shows "\<exists>sc. pre = sc @ ''://'' \<and> sc \<noteq> [] \<and> ascii_alpha (hd sc) \<and> list_all scheme_char sc \<and>
    py_lower sc = ''https''"
proof -
  from assms obtain c1 c2 c3 c4 c5 where s: "pre = [c1, c2, c3, c4, c5, CHR '':'', CHR ''/'', CHR ''/'']"
    and c: "c1 = CHR ''h'' \<or> c1 = CHR ''H''" "c2 = CHR ''t'' \<or> c2 = CHR ''T''"
    "c3 = CHR ''t'' \<or> c3 = CHR ''T''" "c4 = CHR ''p'' \<or> c4 = CHR ''P''"
    "c5 = CHR ''s'' \<or> c5 = CHR ''S''"
    by (rule ci_https_chars)
  note l = ci_letter_h [OF c(1)] ci_letter_t [OF c(2)] ci_letter_t [OF c(3)]
    ci_letter_p [OF c(4)] ci_letter_s [OF c(5)]
  show ?thesis
    by (rule exI [of _ "[c1, c2, c3, c4, c5]"]) (simp add: s l py_lower_def)
qed

text \<open>The scheme that \<open>urlsplit\<close> finds in a text that starts with \<open>http://\<close> or
  \<open>https://\<close> in any case.\<close>

lemma urlsplit_http:
  assumes "py_lower pre = ''http://''"
  shows "urlsplit ipv6 (pre @ rest) = url_body ipv6 ''http'' (filter (\<lambda>c. \<not> unsafe_byte c) rest)"
proof -
  from ci_http_form [OF assms] obtain sc where sc: "pre = sc @ ''://''" "sc \<noteq> []"
    "ascii_alpha (hd sc)" "list_all scheme_char sc" "py_lower sc = ''http''"
    by blast
  from urlsplit_scheme [OF sc(2-4), of ipv6 rest] sc(1,5) show ?thesis by simp
qed

lemma urlsplit_https:
  assumes "py_lower pre = ''https://''"
  shows "urlsplit ipv6 (pre @ rest) = url_body ipv6 ''https'' (filter (\<lambda>c. \<not> unsafe_byte c) rest)"
proof -
  from ci_https_form [OF assms] obtain sc where sc: "pre = sc @ ''://''" "sc \<noteq> []"
    "ascii_alpha (hd sc)" "list_all scheme_char sc" "py_lower sc = ''https''"
    by blast
  from urlsplit_scheme [OF sc(2-4), of ipv6 rest] sc(1,5) show ?thesis by simp
qed

lemma before_first_free: "c \<notin> set (before_first c s)"
  unfolding before_first_def by (induction s) auto

lemma before_first_subset: "set (before_first c s) \<subseteq> set s"
  unfolding before_first_def by (auto dest: set_takeWhileD)

lemma after_first_subset: "set (after_first c s) \<subseteq> set s"
  unfolding after_first_def by (auto dest: in_set_dropD set_dropWhileD)

lemma before_first_hd: "s \<noteq> [] \<Longrightarrow> hd s \<noteq> c \<Longrightarrow> before_first c s \<noteq> [] \<and> hd (before_first c s) = hd s"
  unfolding before_first_def by (cases s) auto

lemma before_first_hd_eq: "s \<noteq> [] \<Longrightarrow> hd s = c \<Longrightarrow> before_first c s = []"
  unfolding before_first_def by (cases s) auto

lemma split_rest_props:
  assumes "split_rest r = (p, q, f)"
  shows "CHR ''#'' \<notin> set p" "CHR ''?'' \<notin> set p" "CHR ''#'' \<notin> set q"
    "set p \<subseteq> set r" "set q \<subseteq> set r"
    "r = [] \<or> netloc_delim (hd r) \<Longrightarrow> p = [] \<or> hd p = CHR ''/''"
proof -
  let ?u = "if CHR ''#'' \<in> set r then before_first CHR ''#'' r else r"
  have u: "CHR ''#'' \<notin> set ?u" "set ?u \<subseteq> set r"
    using before_first_free [of "CHR ''#''" r] before_first_subset [of "CHR ''#''" r] by auto
  from assms have p: "p = (if CHR ''?'' \<in> set ?u then before_first CHR ''?'' ?u else ?u)"
    and q: "q = (if CHR ''?'' \<in> set ?u then after_first CHR ''?'' ?u else [])"
    by (auto simp: split_rest_def Let_def split: if_splits)
  from p u show "CHR ''#'' \<notin> set p"
    using before_first_subset [of "CHR ''?''" ?u] by (auto split: if_splits)
  from p show "CHR ''?'' \<notin> set p"
    using before_first_free [of "CHR ''?''" ?u] by (auto split: if_splits)
  from q u show "CHR ''#'' \<notin> set q"
    using after_first_subset [of "CHR ''?''" ?u] by (auto split: if_splits)
  from p u show "set p \<subseteq> set r"
    using before_first_subset [of "CHR ''?''" ?u] by (auto split: if_splits)
  from q u show "set q \<subseteq> set r"
    using after_first_subset [of "CHR ''?''" ?u] by (auto split: if_splits)
  assume d: "r = [] \<or> netloc_delim (hd r)"
  show "p = [] \<or> hd p = CHR ''/''"
  proof (cases "r = []")
    case True
    with p show ?thesis by (simp add: before_first_def)
  next
    case False
    with d have "hd r = CHR ''/'' \<or> hd r = CHR ''?'' \<or> hd r = CHR ''#''"
      by (simp add: netloc_delim_def)
    then show ?thesis
    proof (elim disjE)
      assume h: "hd r = CHR ''/''"
      with False have 1: "?u \<noteq> [] \<and> hd ?u = CHR ''/''"
        using before_first_hd [of r "CHR ''#''"] by auto
      then have "(if CHR ''?'' \<in> set ?u then before_first CHR ''?'' ?u else ?u) \<noteq> [] \<and>
          hd (if CHR ''?'' \<in> set ?u then before_first CHR ''?'' ?u else ?u) = CHR ''/''"
        using before_first_hd [of ?u "CHR ''?''"] by auto
      with p show ?thesis by simp
    next
      assume h: "hd r = CHR ''?''"
      with False have 1: "?u \<noteq> [] \<and> hd ?u = CHR ''?''"
        using before_first_hd [of r "CHR ''#''"] by auto
      then have "CHR ''?'' \<in> set ?u" by (metis hd_in_set)
      with 1 p show ?thesis using before_first_hd_eq [of ?u "CHR ''?''"] by simp
    next
      assume h: "hd r = CHR ''#''"
      with False have "CHR ''#'' \<in> set r" by (metis hd_in_set)
      with h False have "?u = []" using before_first_hd_eq [of r "CHR ''#''"] by simp
      with p show ?thesis by simp
    qed
  qed
qed

lemma last_segment_split:
  "p = rev (dropWhile (\<lambda>c. c \<noteq> CHR ''/'') (rev p)) @ last_segment p"
  unfolding last_segment_def
  by (metis rev_append rev_rev_ident takeWhile_dropWhile_id)

lemma last_segment_no_slash: "CHR ''/'' \<notin> set (last_segment p)"
  unfolding last_segment_def by (auto dest: set_takeWhileD)

lemma last_segment_subset: "set (last_segment p) \<subseteq> set p"
  unfolding last_segment_def by (auto dest: set_takeWhileD)

lemma last_segment_append:
  "CHR ''/'' \<notin> set b \<Longrightarrow> last_segment (front @ CHR ''/'' # b) = b"
proof -
  assume b: "CHR ''/'' \<notin> set b"
  have "takeWhile (\<lambda>c. c \<noteq> CHR ''/'') (rev b @ CHR ''/'' # rev front) = rev b"
    using b by (intro takeWhile_stop) auto
  then show ?thesis by (simp add: last_segment_def)
qed

lemma front_slash:
  assumes "CHR ''/'' \<in> set p"
  shows "\<exists>f. rev (dropWhile (\<lambda>c. c \<noteq> CHR ''/'') (rev p)) = f @ ''/''"
proof -
  from assms have "dropWhile (\<lambda>c. c \<noteq> CHR ''/'') (rev p) \<noteq> []"
    by (simp add: dropWhile_eq_Nil_conv) 
  then obtain x xs where d: "dropWhile (\<lambda>c. c \<noteq> CHR ''/'') (rev p) = x # xs"
    by (cases "dropWhile (\<lambda>c. c \<noteq> CHR ''/'') (rev p)") auto
  from hd_dropWhile [of "\<lambda>c. c \<noteq> CHR ''/''" "rev p"] d have "x = CHR ''/''" by auto
  with d show ?thesis by simp
qed

lemma splitparams_good:
  assumes "p = [] \<or> hd p = CHR ''/''" "CHR '';'' \<in> set p"
  shows "fst (splitparams p) \<noteq> [] \<and> hd (fst (splitparams p)) = CHR ''/'' \<and>
     set (fst (splitparams p)) \<subseteq> set p \<and> CHR '';'' \<notin> set (last_segment (fst (splitparams p)))"
proof -
  from assms have ne: "p \<noteq> []" and hd: "hd p = CHR ''/''" by auto
  then have sl: "CHR ''/'' \<in> set p" by (metis hd_in_set)
  from front_slash [OF sl] obtain f where f: "rev (dropWhile (\<lambda>c. c \<noteq> CHR ''/'') (rev p)) = f @ ''/''"
    by blast
  let ?seg = "last_segment p"
  from last_segment_split [of p] f have p: "p = (f @ ''/'') @ ?seg" by simp
  then have "length p = length (f @ ''/'') + length ?seg" by (metis length_append)
  with p have front: "take (length p - length ?seg) p = f @ ''/''"
    by (metis add_diff_cancel_right' append_eq_conv_conj)
  show ?thesis
  proof (cases "CHR '';'' \<in> set ?seg")
    case True
    let ?b = "before_first CHR '';'' ?seg"
    from True sl front have sp: "fst (splitparams p) = (f @ ''/'') @ ?b"
      by (simp add: splitparams_def last_segment_def Let_def)
    have b: "CHR ''/'' \<notin> set ?b" "CHR '';'' \<notin> set ?b" "set ?b \<subseteq> set ?seg"
      using last_segment_no_slash [of p] before_first_subset [of "CHR '';''" ?seg]
        before_first_free [of "CHR '';''" ?seg] by auto
    from b(1) have ls: "last_segment (f @ CHR ''/'' # ?b) = ?b" by (rule last_segment_append)
    have hdp: "hd ((f @ ''/'') @ ?b) = hd p"
      using p by (metis append_is_Nil_conv hd_append2 list.distinct(1))
    have sub: "set ((f @ ''/'') @ ?b) \<subseteq> set p"
      using p b(3) by (metis (no_types, lifting) Un_mono last_segment_subset set_append subset_refl sup.absorb_iff2 subset_trans le_sup_iff)
    from sp ls b(2) hdp hd sub show ?thesis by simp
  next
    case False
    with sl have "fst (splitparams p) = p"
      by (simp add: splitparams_def last_segment_def Let_def)
    with False ne hd show ?thesis by simp
  qed
qed

lemma splitparams_stable:
  "CHR ''/'' \<in> set p \<Longrightarrow> CHR '';'' \<notin> set (last_segment p) \<Longrightarrow> splitparams p = (p, [])"
  by (simp add: splitparams_def last_segment_def Let_def)

lemma url_body_shape:
  assumes "url_body ipv6 sch body = Inr r" "list_all (\<lambda>c. \<not> unsafe_byte c) body"
  shows "scheme r = sch" "netloc r = takeWhile (\<lambda>c. \<not> netloc_delim c) body"
    "check_netloc ipv6 (netloc r) = Inr ()" "params r = []" "good_netloc (netloc r)"
    "path r = [] \<or> hd (path r) = CHR ''/''"
    "list_all (\<lambda>c. \<not> unsafe_byte c \<and> c \<noteq> CHR ''?'' \<and> c \<noteq> CHR ''#'') (path r)"
    "good_query (query r)"
proof -
  let ?nl = "takeWhile (\<lambda>c. \<not> netloc_delim c) body"
  let ?r = "dropWhile (\<lambda>c. \<not> netloc_delim c) body"
  obtain p q f where sr: "split_rest ?r = (p, q, f)" by (cases "split_rest ?r") auto
  from assms(1) sr have ok: "check_netloc ipv6 ?nl = Inr ()"
    and r: "r = \<lparr>scheme = sch, netloc = ?nl, path = p, params = [], query = q, fragment = f\<rparr>"
    by (auto simp: url_body_def Let_def split: sum.splits)
  from r show "scheme r = sch" "netloc r = ?nl" "params r = []" by simp_all
  from r ok show "check_netloc ipv6 (netloc r) = Inr ()" by simp
  from assms(2) have "list_all (\<lambda>c. \<not> unsafe_byte c \<and> \<not> netloc_delim c) ?nl"
    by (auto simp: list_all_iff dest: set_takeWhileD)
  with r show "good_netloc (netloc r)" by (simp add: good_netloc_def)
  have d: "?r = [] \<or> netloc_delim (hd ?r)"
    using hd_dropWhile [of "\<lambda>c. \<not> netloc_delim c" body] by auto
  from split_rest_props(6) [OF sr d] r show "path r = [] \<or> hd (path r) = CHR ''/''" by simp
  have sub: "set ?r \<subseteq> set body" by (auto dest: set_dropWhileD)
  from split_rest_props(1,2,4) [OF sr] sub assms(2) r
  show "list_all (\<lambda>c. \<not> unsafe_byte c \<and> c \<noteq> CHR ''?'' \<and> c \<noteq> CHR ''#'') (path r)"
    by (auto simp: list_all_iff)
  from split_rest_props(3,5) [OF sr] sub assms(2) r
  show "good_query (query r)"
    by (auto simp: list_all_iff good_query_def)
qed

lemma last_segment_no_semi: "CHR '';'' \<notin> set p \<Longrightarrow> CHR '';'' \<notin> set (last_segment p)"
  using last_segment_subset [of p] by auto

lemma urlparse_ci_shape:
  assumes "py_lower pre = ''http://'' \<or> py_lower pre = ''https://''"
    and "urlparse ipv6 (pre @ rest) = Inr r"
  shows "scheme r = ''http'' \<or> scheme r = ''https''"
    "netloc r = takeWhile (\<lambda>c. \<not> netloc_delim c) (filter (\<lambda>c. \<not> unsafe_byte c) rest)"
    "check_netloc ipv6 (netloc r) = Inr ()" "good_netloc (netloc r)"
    "good_path (path r)" "good_query (query r)"
proof -
  let ?body = "filter (\<lambda>c. \<not> unsafe_byte c) rest"
  have safe: "list_all (\<lambda>c. \<not> unsafe_byte c) ?body" by (simp add: list_all_iff)
  from assms(1) obtain sch where sch: "sch = ''http'' \<or> sch = ''https''"
    and us: "urlsplit ipv6 (pre @ rest) = url_body ipv6 sch ?body"
    using urlsplit_http [of pre ipv6 rest] urlsplit_https [of pre ipv6 rest] by blast
  from assms(2) us obtain r0 where r0: "url_body ipv6 sch ?body = Inr r0"
    and r: "r = (if scheme r0 \<in> set uses_params \<and> CHR '';'' \<in> set (path r0)
           then r0\<lparr>path := fst (splitparams (path r0)), params := snd (splitparams (path r0))\<rparr>
           else r0)"
    by (auto simp: urlparse_def split: sum.splits if_splits)
  note s = url_body_shape [OF r0 safe]
  from r s(1) sch show "scheme r = ''http'' \<or> scheme r = ''https''" by (auto split: if_splits)
  from r s(2) show "netloc r = takeWhile (\<lambda>c. \<not> netloc_delim c) ?body" by (auto split: if_splits)
  from r s(3) show "check_netloc ipv6 (netloc r) = Inr ()" by (auto split: if_splits)
  from r s(5) show "good_netloc (netloc r)" by (auto split: if_splits)
  from r s(8) show "good_query (query r)" by (auto split: if_splits)
  show "good_path (path r)"
  proof (cases "scheme r0 \<in> set uses_params \<and> CHR '';'' \<in> set (path r0)")
    case True
    then have semi: "CHR '';'' \<in> set (path r0)" by simp
    from True r have p: "path r = fst (splitparams (path r0))" by simp
    from splitparams_good [OF s(6) semi] s(7) show ?thesis
      unfolding p good_path_def by (auto simp: list_all_iff)
  next
    case False
    with r have p: "r = r0" by simp
    from False s(1) sch have "CHR '';'' \<notin> set (path r0)" by (auto simp: uses_params_def)
    from last_segment_no_semi [OF this] s(6,7) show ?thesis
      unfolding p good_path_def by simp
  qed
qed

lemma takeWhile_all_then:
  "\<forall>x\<in>set xs. P x \<Longrightarrow> ys = [] \<or> \<not> P (hd ys) \<Longrightarrow> takeWhile P (xs @ ys) = xs"
  by (cases ys) (auto simp: takeWhile_stop)

lemma dropWhile_all_then:
  "\<forall>x\<in>set xs. P x \<Longrightarrow> ys = [] \<or> \<not> P (hd ys) \<Longrightarrow> dropWhile P (xs @ ys) = ys"
  by (cases ys) (auto simp: dropWhile_stop)

lemma split_rest_compose:
  assumes "list_all (\<lambda>c. c \<noteq> CHR ''?'' \<and> c \<noteq> CHR ''#'') p" "CHR ''#'' \<notin> set q"
  shows "split_rest (p @ (if q = [] then [] else CHR ''?'' # q)) = (p, q, [])"
proof (cases "q = []")
  case True
  with assms show ?thesis by (auto simp: split_rest_def list_all_iff)
next
  case False
  from assms(1) have p: "\<forall>x\<in>set p. x \<noteq> CHR ''?''" by (auto simp: list_all_iff)
  have b: "before_first CHR ''?'' (p @ CHR ''?'' # q) = p"
    unfolding before_first_def using p by (intro takeWhile_stop) auto
  have a: "after_first CHR ''?'' (p @ CHR ''?'' # q) = q"
    unfolding after_first_def using dropWhile_stop [of p "\<lambda>x. x \<noteq> CHR ''?''" "CHR ''?''" q] p by simp
  from assms False have "CHR ''#'' \<notin> set (p @ CHR ''?'' # q)" by (auto simp: list_all_iff)
  with False a b show ?thesis by (simp add: split_rest_def)
qed

lemma urlparse_compose:
  assumes "py_lower pre = sch @ ''://''" "sch = ''http'' \<or> sch = ''https''"
    and "good_netloc nl" "good_path p" "good_query q"
  shows "urlparse ipv6 (pre @ nl @ p @ (if q = [] then [] else CHR ''?'' # q)) =
    (case check_netloc ipv6 nl of
       Inl e \<Rightarrow> Inl e
     | Inr _ \<Rightarrow> Inr \<lparr>scheme = sch, netloc = nl, path = p, params = [], query = q, fragment = []\<rparr>)"
proof -
  let ?qq = "if q = [] then [] else CHR ''?'' # q"
  let ?rest = "nl @ p @ ?qq"
  from assms(4) have gp: "p = [] \<or> hd p = CHR ''/''"
    "list_all (\<lambda>c. \<not> unsafe_byte c \<and> c \<noteq> CHR ''?'' \<and> c \<noteq> CHR ''#'') p"
    "CHR '';'' \<notin> set (last_segment p)"
    by (simp_all add: good_path_def)
  have q1: "\<not> unsafe_byte CHR ''?''" by (simp add: unsafe_byte_def)
  from assms(3,5) gp(2) q1 have "list_all (\<lambda>c. \<not> unsafe_byte c) ?rest"
    by (cases "q = []") (auto simp: good_netloc_def good_query_def list_all_iff)
  then have filt: "filter (\<lambda>c. \<not> unsafe_byte c) ?rest = ?rest"
    by (simp add: list_all_iff filter_id_conv)
  from assms(1,2) have us: "urlsplit ipv6 (pre @ ?rest) = url_body ipv6 sch ?rest"
    using urlsplit_http [of pre ipv6 ?rest] urlsplit_https [of pre ipv6 ?rest] filt
    by (elim disjE) simp_all
  have tail: "p @ ?qq = [] \<or> netloc_delim (hd (p @ ?qq))"
  proof (cases p)
    case Nil
    then show ?thesis by (cases "q = []") (simp_all add: netloc_delim_def)
  next
    case (Cons a as)
    with gp(1) have "a = CHR ''/''" by simp
    with Cons show ?thesis by (simp add: netloc_delim_def)
  qed
  from assms(3) have nl: "\<forall>x\<in>set nl. \<not> netloc_delim x" by (auto simp: good_netloc_def list_all_iff)
  have t: "takeWhile (\<lambda>c. \<not> netloc_delim c) ?rest = nl"
    using nl tail by (intro takeWhile_all_then) auto
  have d: "dropWhile (\<lambda>c. \<not> netloc_delim c) ?rest = p @ ?qq"
    using nl tail by (intro dropWhile_all_then) auto
  from gp(2) assms(5) have sr: "split_rest (p @ ?qq) = (p, q, [])"
    by (intro split_rest_compose) (auto simp: good_query_def list_all_iff)
  have body: "url_body ipv6 sch ?rest =
    (case check_netloc ipv6 nl of
       Inl e \<Rightarrow> Inl e
     | Inr _ \<Rightarrow> Inr \<lparr>scheme = sch, netloc = nl, path = p, params = [], query = q, fragment = []\<rparr>)"
    unfolding url_body_def t d by (simp add: sr)
  have par: "CHR '';'' \<in> set p \<Longrightarrow> splitparams p = (p, [])"
  proof -
    assume "CHR '';'' \<in> set p"
    then have "p \<noteq> []" by auto
    with gp(1) have "hd p = CHR ''/''" by simp
    with \<open>p \<noteq> []\<close> have "CHR ''/'' \<in> set p" by (metis hd_in_set)
    moreover note gp(3)
    ultimately show ?thesis by (rule splitparams_stable)
  qed
  show ?thesis
  proof (cases "check_netloc ipv6 nl")
    case (Inl e)
    then show ?thesis by (simp add: urlparse_def us body)
  next
    case (Inr u)
    then show ?thesis by (simp add: urlparse_def us body par)
  qed
qed

lemma py_strip_rstrip: "s \<noteq> [] \<Longrightarrow> \<not> isspace (hd s) \<Longrightarrow> py_strip s = rstrip s"
  by (cases s) (simp_all add: py_strip_def rstrip_def)

lemma rstrip_append:
  assumes "s \<noteq> []" "\<not> isspace (last s)"
  shows "rstrip (s @ p) = s @ rstrip p"
proof (cases "\<forall>x\<in>set (rev p). isspace x")
  case True
  from assms(1) obtain a as where r: "rev s = a # as" by (cases "rev s") auto
  with assms(1) have "last s = a" using hd_rev [of s] by simp
  with assms(2) r have 1: "dropWhile isspace (rev s) = rev s" by simp
  from True have 2: "dropWhile isspace (rev p @ rev s) = dropWhile isspace (rev s)"
    by (intro dropWhile_append2) auto
  from True have 3: "dropWhile isspace (rev p) = []" by simp
  show ?thesis by (simp add: rstrip_def 1 2 3)
next
  case False
  then obtain x where "x \<in> set (rev p)" "\<not> isspace x" by blast
  then have "dropWhile isspace (rev p @ rev s) = dropWhile isspace (rev p) @ rev s"
    by (intro dropWhile_append1) auto
  then show ?thesis by (simp add: rstrip_def)
qed

lemma rstrip_subset: "set (rstrip p) \<subseteq> set p"
  unfolding rstrip_def by (auto dest: set_dropWhileD)

lemma rstrip_hd: "p \<noteq> [] \<Longrightarrow> \<not> isspace (hd p) \<Longrightarrow> rstrip p \<noteq> [] \<and> hd (rstrip p) = hd p"
proof -
  assume p: "p \<noteq> []" "\<not> isspace (hd p)"
  then obtain a as where a: "p = [a] @ as" by (cases p) auto
  with p have "rstrip ([a] @ as) = [a] @ rstrip as" by (intro rstrip_append) auto
  with a show ?thesis by simp
qed

lemma rstrip_idem: "rstrip p = p \<longleftrightarrow> (p = [] \<or> \<not> isspace (last p))"
proof (cases "rev p")
  case Nil
  then show ?thesis by (simp add: rstrip_def)
next
  case (Cons a as)
  then have pne: "p \<noteq> []" by auto
  with Cons have "last p = a" using hd_rev [of p] by simp
  note l = this pne
  show ?thesis
  proof (cases "isspace a")
    case True
    have "length (rstrip p) = length (dropWhile isspace as)"
      using Cons True by (simp add: rstrip_def)
    also have "\<dots> \<le> length as" by (rule length_dropWhile_le)
    also have "\<dots> < length (rev p)" using Cons by simp
    finally have "length (rstrip p) < length p" by simp
    then have "rstrip p \<noteq> p" by auto
    with True l show ?thesis by simp
  next
    case False
    with Cons have "rstrip p = rev (rev p)" by (simp add: rstrip_def)
    with False l show ?thesis by simp
  qed
qed

lemma takeWhile_dropWhile_subset:
  "(\<And>x. Q x \<Longrightarrow> P x) \<Longrightarrow> set (takeWhile P (dropWhile Q xs)) \<subseteq> set (takeWhile P xs)"
  by (induction xs) auto

lemma isspace_not_slash: "isspace c \<Longrightarrow> c \<noteq> CHR ''/''"
  by (auto simp: isspace_def)

lemma good_path_rstrip:
  assumes "good_path p"
  shows "good_path (rstrip p)"
proof -
  from assms have gp: "p = [] \<or> hd p = CHR ''/''"
    "list_all (\<lambda>c. \<not> unsafe_byte c \<and> c \<noteq> CHR ''?'' \<and> c \<noteq> CHR ''#'') p"
    "CHR '';'' \<notin> set (last_segment p)"
    by (simp_all add: good_path_def)
  have 1: "rstrip p = [] \<or> hd (rstrip p) = CHR ''/''"
  proof (cases "p = []")
    case True
    then show ?thesis by (simp add: rstrip_def)
  next
    case False
    with gp(1) have h: "hd p = CHR ''/''" by simp
    then have "\<not> isspace (hd p)" by (simp add: isspace_def)
    from rstrip_hd [OF False this] h show ?thesis by simp
  qed
  from gp(2) rstrip_subset [of p]
  have 2: "list_all (\<lambda>c. \<not> unsafe_byte c \<and> c \<noteq> CHR ''?'' \<and> c \<noteq> CHR ''#'') (rstrip p)"
    by (auto simp: list_all_iff)
  have "set (last_segment (rstrip p)) \<subseteq> set (last_segment p)"
    using takeWhile_dropWhile_subset [of isspace "\<lambda>c. c \<noteq> CHR ''/''" "rev p"] isspace_not_slash
    by (simp add: last_segment_def rstrip_def)
  with gp(3) have 3: "CHR '';'' \<notin> set (last_segment (rstrip p))" by auto
  from 1 2 3 show ?thesis by (simp add: good_path_def)
qed

lemma with_scheme_form:
  "\<exists>pre rest. with_scheme t = pre @ rest \<and> (py_lower pre = ''http://'' \<or> py_lower pre = ''https://'')"
proof (cases "startswith t ''//''")
  case True
  then have "take (length ''//'') t = ''//''" by (simp only: startswith_def)
  moreover have "take (length ''//'') t @ drop (length ''//'') t = t" by (rule append_take_drop_id)
  ultimately have "t = ''//'' @ drop (length ''//'') t" by simp
  then obtain r where t: "t = ''//'' @ r" by blast
  have "with_scheme (''//'' @ r) = ''https://'' @ r"
    by (simp add: with_scheme_def startswith_def py_lower_def lower_char_def is_upper_def)
  moreover have "py_lower ''https://'' = ''https://''"
    by (simp add: py_lower_def lower_char_def is_upper_def)
  ultimately show ?thesis using t by blast
next
  case False
  show ?thesis
  proof (cases "startswith (py_lower t) ''http://''")
    case True
    then have "py_lower (take (length ''http://'') t) = ''http://''"
      by (simp only: startswith_def py_lower_def take_map)
    moreover from True False have "with_scheme t = t"
      by (simp add: with_scheme_def)
    then have "with_scheme t = take (length ''http://'') t @ drop (length ''http://'') t"
      by (simp only: append_take_drop_id)
    ultimately show ?thesis by blast
  next
    case h: False
    show ?thesis
    proof (cases "startswith (py_lower t) ''https://''")
      case True
      then have "py_lower (take (length ''https://'') t) = ''https://''"
        by (simp only: startswith_def py_lower_def take_map)
      moreover from True False have "with_scheme t = t"
        by (simp add: with_scheme_def)
      then have "with_scheme t = take (length ''https://'') t @ drop (length ''https://'') t"
        by (simp only: append_take_drop_id)
      ultimately show ?thesis by blast
    next
      case hs: False
      with h False have "with_scheme t = ''https://'' @ t"
        by (simp add: with_scheme_def)
      moreover have "py_lower ''https://'' = ''https://''"
        by (simp add: py_lower_def lower_char_def is_upper_def)
      ultimately show ?thesis by blast
    qed
  qed
qed

lemma urlunparse_good:
  "nl \<noteq> [] \<Longrightarrow> p = [] \<or> hd p = CHR ''/'' \<Longrightarrow>
   urlunparse ''https'' nl p [] q [] = ''https://'' @ nl @ p @ (if q = [] then [] else CHR ''?'' # q)"
  by (cases p) (simp_all add: urlunparse_def urlunsplit_def)

lemma allowed_host_facts:
  assumes "h \<in> allowed_hosts"
  shows "h \<noteq> []" "good_netloc h" "check_netloc ipv6 h = Inr ()" "host_of_netloc h = h"
    "\<not> isspace (last h)"
  using assms unfolding allowed_hosts_def
  by (elim insertE emptyE;
      simp add: good_netloc_def unsafe_byte_def netloc_delim_def check_netloc_def host_of_netloc_def
        py_lower_def lower_char_def is_upper_def startswith_def isspace_def)+

lemma normalize_shape:
  assumes "normalize_input_url ipv6 (PyStr raw) = Inr (Some n)"
  shows "\<exists>h p. n = ''https://'' @ h @ p \<and> h \<in> allowed_hosts \<and> good_path p"
proof -
  let ?t = "py_strip raw"
  from assms obtain parsed where t: "?t \<noteq> []"
    and up: "urlparse ipv6 (with_scheme ?t) = Inr parsed"
    and h: "host_of_netloc (netloc parsed) \<in> allowed_hosts"
    and n: "n = urlunparse ''https'' (host_of_netloc (netloc parsed)) (path parsed) [] [] []"
    by (auto simp: normalize_input_url_def Let_def split: if_splits sum.splits)
  from with_scheme_form [of ?t] obtain pre rest where w: "with_scheme ?t = pre @ rest"
    and ci: "py_lower pre = ''http://'' \<or> py_lower pre = ''https://''" by blast
  from up w have "urlparse ipv6 (pre @ rest) = Inr parsed" by simp
  from urlparse_ci_shape(5) [OF ci this] have gp: "good_path (path parsed)" .
  then have "path parsed = [] \<or> hd (path parsed) = CHR ''/''" by (simp add: good_path_def)
  from urlunparse_good [OF allowed_host_facts(1) [OF h] this, of "[]"] n
  have "n = ''https://'' @ host_of_netloc (netloc parsed) @ path parsed" by simp
  with h gp show ?thesis by blast
qed

lemma https_prefix_facts:
  "with_scheme (''https://'' @ x) = ''https://'' @ x"
  "py_lower ''https://'' = ''https'' @ ''://''"
  by (simp_all add: with_scheme_def startswith_def py_lower_def lower_char_def is_upper_def)

lemma normalize_compute:
  assumes "h \<in> allowed_hosts" "good_path p"
  shows "normalize_input_url ipv6 (PyStr (''https://'' @ h @ p)) =
    Inr (Some (''https://'' @ h @ rstrip p))"
proof -
  note hf = allowed_host_facts [OF assms(1)]
  let ?s = "''https://'' @ h"
  have s: "?s \<noteq> []" "\<not> isspace (hd ?s)" "\<not> isspace (last ?s)"
    using hf(1,5) by (simp_all add: isspace_def)
  have "py_strip (?s @ p) = rstrip (?s @ p)"
    using s(1,2) by (intro py_strip_rstrip) simp_all
  also have "\<dots> = ?s @ rstrip p" using s(1,3) by (rule rstrip_append)
  finally have strip: "py_strip (''https://'' @ h @ p) = ''https://'' @ h @ rstrip p" by simp
  have gp: "good_path (rstrip p)" using assms(2) by (rule good_path_rstrip)
  then have gp1: "rstrip p = [] \<or> hd (rstrip p) = CHR ''/''" by (simp add: good_path_def)
  have gq: "good_query []" by (simp add: good_query_def)
  from urlparse_compose [OF https_prefix_facts(2) _ hf(2) gp gq, of ipv6] hf(3) [of ipv6]
  have up: "urlparse ipv6 (''https://'' @ h @ rstrip p) =
      Inr \<lparr>scheme = ''https'', netloc = h, path = rstrip p, params = [], query = [], fragment = []\<rparr>"
    by simp
  from urlunparse_good [OF hf(1) gp1, of "[]"]
  have un: "urlunparse ''https'' h (rstrip p) [] [] [] = ''https://'' @ h @ rstrip p" by simp
  show ?thesis
    unfolding normalize_input_url_def
    by (simp add: strip https_prefix_facts(1) up hf(4) assms(1) un Let_def del: append.simps)
qed

lemma rstrip_rstrip: "rstrip (rstrip p) = rstrip p"
proof (cases "dropWhile isspace (rev p) = []")
  case True
  then show ?thesis by (simp add: rstrip_def)
next
  case False
  from hd_dropWhile [OF False] have "\<not> isspace (hd (dropWhile isspace (rev p)))" .
  moreover from False have "last (rstrip p) = hd (dropWhile isspace (rev p))"
    by (simp add: rstrip_def last_rev)
  ultimately have "\<not> isspace (last (rstrip p))" by simp
  then show ?thesis by (simp add: rstrip_idem)
qed

lemma py_strip_https:
  assumes "h \<in> allowed_hosts"
  shows "py_strip (''https://'' @ h @ p) = ''https://'' @ h @ rstrip p"
proof -
  note hf = allowed_host_facts [OF assms(1)]
  let ?s = "''https://'' @ h"
  have s: "?s \<noteq> []" "\<not> isspace (hd ?s)" "\<not> isspace (last ?s)"
    using hf(1,5) by (simp_all add: isspace_def)
  have "py_strip (?s @ p) = rstrip (?s @ p)"
    using s(1,2) by (intro py_strip_rstrip) simp_all
  also have "\<dots> = ?s @ rstrip p" using s(1,3) by (rule rstrip_append)
  finally show ?thesis by simp
qed

text \<open>
  Claim C7, as amended.  When \<open>normalize_input_url\<close> returns \<open>n\<close> for a raw URL, it returns
  for \<open>n\<close> the text \<open>n\<close> without the white space at its end (\<open>py_strip n\<close>): \<open>n\<close> itself
  when \<open>n\<close> does not end in white space, and in any case a text that it maps to itself.
  When the URL parses and its host (in lower case, without a leading \<open>www.\<close>) is not in the
  allow-set, the function returns \<open>None\<close>.
\<close>

theorem C7_normalize_twice:
  "(normalize_input_url ipv6 (PyStr raw) = Inr (Some n) \<longrightarrow>
      normalize_input_url ipv6 (PyStr n) = Inr (Some (py_strip n)) \<and>
      (py_strip n = n \<longrightarrow> normalize_input_url ipv6 (PyStr n) = Inr (Some n)) \<and>
      normalize_input_url ipv6 (PyStr (py_strip n)) = Inr (Some (py_strip n))) \<and>
   (\<forall>parsed. urlparse ipv6 (with_scheme (py_strip raw)) = Inr parsed \<and>
        host_of_netloc (netloc parsed) \<notin> allowed_hosts \<longrightarrow>
      normalize_input_url ipv6 (PyStr raw) = Inr None)"
proof (intro conjI impI allI)
  assume a: "normalize_input_url ipv6 (PyStr raw) = Inr (Some n)"
  from normalize_shape [OF a] obtain h p where n: "n = ''https://'' @ h @ p"
    and h: "h \<in> allowed_hosts" and gp: "good_path p" by blast
  from normalize_compute [OF h gp, of ipv6] py_strip_https [OF h, of p] n
  show 1: "normalize_input_url ipv6 (PyStr n) = Inr (Some (py_strip n))" by simp
  then show "py_strip n = n \<Longrightarrow> normalize_input_url ipv6 (PyStr n) = Inr (Some n)" by simp
  have "rstrip (rstrip p) = rstrip p" by (rule rstrip_rstrip)
  with normalize_compute [OF h good_path_rstrip [OF gp], of ipv6] py_strip_https [OF h, of p] n
  show "normalize_input_url ipv6 (PyStr (py_strip n)) = Inr (Some (py_strip n))" by simp
next
  fix parsed
  assume "urlparse ipv6 (with_scheme (py_strip raw)) = Inr parsed \<and>
        host_of_netloc (netloc parsed) \<notin> allowed_hosts"
  then show "normalize_input_url ipv6 (PyStr raw) = Inr None"
    by (simp add: normalize_input_url_def Let_def)
qed

theorem C7_normalize_twice_witness:
  "normalize_input_url (\<lambda>h. False) (PyStr ''https://twitter.com/a;b/c'') =
     Inr (Some ''https://twitter.com/a;b/c'') \<and>
   normalize_input_url (\<lambda>h. False) (PyStr ''https://sub.twitter.com/a/status/1'') = Inr None"
proof -
  have a: "normalize_input_url (\<lambda>h. False) (PyStr '' HTTP://WWW.Twitter.com/a;b/c;d?x=1#f '') =
      Inr (Some ''https://twitter.com/a;b/c'')"
    by (simp add: str_eval url_eval)
  have s: "py_strip ''https://twitter.com/a;b/c'' = ''https://twitter.com/a;b/c''"
    by (simp add: str_eval)
  have b: "urlparse (\<lambda>h. False) (with_scheme (py_strip ''https://sub.twitter.com/a/status/1'')) =
      Inr \<lparr>scheme = ''https'', netloc = ''sub.twitter.com'', path = ''/a/status/1'',
           params = [], query = [], fragment = []\<rparr>"
    by (simp add: str_eval url_eval)
  have c: "host_of_netloc ''sub.twitter.com'' \<notin> allowed_hosts"
    by (simp add: str_eval url_eval)
  from C7_normalize_twice [of "\<lambda>h. False" "'' HTTP://WWW.Twitter.com/a;b/c;d?x=1#f ''"
      "''https://twitter.com/a;b/c''"] a s
  have first: "normalize_input_url (\<lambda>h. False) (PyStr ''https://twitter.com/a;b/c'') =
     Inr (Some ''https://twitter.com/a;b/c'')"
    by simp
  from C7_normalize_twice [of "\<lambda>h. False" "''https://sub.twitter.com/a/status/1''"] b c
  have second: "normalize_input_url (\<lambda>h. False) (PyStr ''https://sub.twitter.com/a/status/1'') =
      Inr None"
    by (metis parse_result.select_convs(2))
  from first second show ?thesis by simp
qed

text \<open>White space before the query stays at the end of the result, and the second
  normalisation strips it.\<close>

theorem C7_trailing_space_counterexample:
  "normalize_input_url (\<lambda>h. False) (PyStr ''https://x.com/a ?q=1'') =
     Inr (Some ''https://x.com/a '') \<and>
   normalize_input_url (\<lambda>h. False) (PyStr ''https://x.com/a '') = Inr (Some ''https://x.com/a'')"
  by (simp add: str_eval url_eval)


section \<open>Extraction without normalisation\<close>

text \<open>A URL whose host is \<open>sub.twitter.com\<close> parses, and its host is not in the allow-set;
  the search of \<open>extract_tweet_id\<close> skips the scheme and \<open>sub.\<close> and matches at
  \<open>twitter.com\<close>.\<close>

lemma urlparse_ci_error:
  assumes "py_lower pre = ''http://'' \<or> py_lower pre = ''https://''"
  shows "(\<exists>r. urlparse ipv6 (pre @ rest) = Inr r) \<longleftrightarrow>
     check_netloc ipv6 (takeWhile (\<lambda>c. \<not> netloc_delim c) (filter (\<lambda>c. \<not> unsafe_byte c) rest)) = Inr ()"
proof -
  let ?body = "filter (\<lambda>c. \<not> unsafe_byte c) rest"
  from assms obtain sch where us: "urlsplit ipv6 (pre @ rest) = url_body ipv6 sch ?body"
    using urlsplit_http [of pre ipv6 rest] urlsplit_https [of pre ipv6 rest] by blast
  have "(\<exists>r. url_body ipv6 sch ?body = Inr r) \<longleftrightarrow>
      check_netloc ipv6 (takeWhile (\<lambda>c. \<not> netloc_delim c) ?body) = Inr ()"
    by (cases "check_netloc ipv6 (takeWhile (\<lambda>c. \<not> netloc_delim c) ?body)")
       (auto simp: url_body_def Let_def split: prod.splits)
  moreover have "(\<exists>r. urlparse ipv6 (pre @ rest) = Inr r) \<longleftrightarrow> (\<exists>r. url_body ipv6 sch ?body = Inr r)"
    unfolding urlparse_def us by (cases "url_body ipv6 sch ?body") auto
  ultimately show ?thesis by simp
qed

lemma sub_host_not_normalized:
  "normalize_input_url ipv6 (PyStr (''https://sub.twitter.com/'' @ r)) = Inr None"
proof -
  let ?s = "''https://sub.twitter.com/''"
  have "py_strip (?s @ r) = rstrip (?s @ r)"
    by (intro py_strip_rstrip) (simp_all add: isspace_def)
  also have "\<dots> = ?s @ rstrip r"
    by (intro rstrip_append) (simp_all add: isspace_def)
  finally have strip: "py_strip (?s @ r) = ''https://'' @ ''sub.twitter.com/'' @ rstrip r" by simp
  have ci: "py_lower ''https://'' = ''http://'' \<or> py_lower ''https://'' = ''https://''"
    by (simp add: py_lower_def lower_char_def is_upper_def)
  let ?rest = "''sub.twitter.com/'' @ rstrip r"
  have nl: "takeWhile (\<lambda>c. \<not> netloc_delim c) (filter (\<lambda>c. \<not> unsafe_byte c) ?rest) = ''sub.twitter.com''"
    by (simp add: netloc_delim_def unsafe_byte_def)
  have ok: "check_netloc ipv6 ''sub.twitter.com'' = Inr ()"
    by (simp add: check_netloc_def)
  from urlparse_ci_error [OF ci, of ipv6 ?rest] nl ok obtain parsed where
    p: "urlparse ipv6 (''https://'' @ ?rest) = Inr parsed" by auto
  from urlparse_ci_shape(2) [OF ci p] nl have n: "netloc parsed = ''sub.twitter.com''" by simp
  have h: "host_of_netloc ''sub.twitter.com'' \<notin> allowed_hosts"
    by (simp add: host_of_netloc_def allowed_hosts_def py_lower_def lower_char_def is_upper_def startswith_def)
  have "py_strip (?s @ r) \<noteq> []" unfolding strip by simp
  then show ?thesis
    unfolding normalize_input_url_def
    by (simp add: strip https_prefix_facts(1) p n h Let_def del: append.simps)
qed

lemma sub_host_extracted:
  assumes "user \<noteq> []" "CHR ''/'' \<notin> set user" "CHR 0x0A \<notin> set user"
    and "list_all is_digit ds" "ds \<noteq> []" "tl0 = [] \<or> \<not> is_digit (hd tl0)"
  shows "extract_tweet_id (PyStr (''https://sub.twitter.com/'' @ user @ ''/status/'' @ ds @ tl0)) = Some ds"
proof -
  let ?rest = "user @ ''/status/'' @ ds @ tl0"
  have m: "\<exists>r. rx_match_at TWEET_URL_RE ([] @ [] @ ''twitter'' @ ''.com/'' @ user @ ''/status/'' @ ds @ tl0) =
      Some (Some ds, r)"
    using assms by (intro tweet_url_match) simp_all
  then obtain r where "rx_match_at TWEET_URL_RE (''twitter.com/'' @ ?rest) = Some (Some ds, r)" by auto
  then have hit: "rx_search TWEET_URL_RE (''twitter.com/'' @ ?rest) = Some (Some ds, r)"
    by (rule rx_search_hit)
  have p0: "rx_match_at TWEET_URL_RE (''https://sub.twitter.com/'' @ ?rest) = None"
    by (simp add: TWEET_URL_RE_def rx_match_at_def startswith_def)
  have p1: "rx_match_at TWEET_URL_RE (''ttps://sub.twitter.com/'' @ ?rest) = None"
    "rx_match_at TWEET_URL_RE (''tps://sub.twitter.com/'' @ ?rest) = None"
    using re_fail_t [of "CHR ''t''"] re_fail_t [of "CHR ''p''"] by simp_all
  have p2: "rx_match_at TWEET_URL_RE (''ps://sub.twitter.com/'' @ ?rest) = None"
    "rx_match_at TWEET_URL_RE (''s://sub.twitter.com/'' @ ?rest) = None"
    "rx_match_at TWEET_URL_RE (''://sub.twitter.com/'' @ ?rest) = None"
    "rx_match_at TWEET_URL_RE (''//sub.twitter.com/'' @ ?rest) = None"
    "rx_match_at TWEET_URL_RE (''/sub.twitter.com/'' @ ?rest) = None"
    "rx_match_at TWEET_URL_RE (''sub.twitter.com/'' @ ?rest) = None"
    "rx_match_at TWEET_URL_RE (''ub.twitter.com/'' @ ?rest) = None"
    "rx_match_at TWEET_URL_RE (''b.twitter.com/'' @ ?rest) = None"
    "rx_match_at TWEET_URL_RE (''.twitter.com/'' @ ?rest) = None"
    by (simp_all add: re_fail_first)
  have "rx_search TWEET_URL_RE (''https://sub.twitter.com/'' @ ?rest) =
      rx_search TWEET_URL_RE (''twitter.com/'' @ ?rest)"
    using p0 p1 p2 by simp
  with hit show ?thesis by (simp add: extract_tweet_id_def)
qed

text \<open>
  Claim C10.  \<open>TWEET_URL_RE.search\<close> is not anchored.  When \<open>extract_tweet_id\<close> finds an
  identifier in a string \<open>u\<close>, it finds one in every string that contains \<open>u\<close>, whatever
  text stands before and after.  For a URL on the host \<open>sub.twitter.com\<close> with one path
  segment, \<open>/status/\<close> and a run of digits, it returns the digits, while
  \<open>normalize_input_url\<close> returns \<open>None\<close> for the same string.  So there are inputs on
  which the extraction succeeds and the normaliser returns nothing.
\<close>

theorem C10_unanchored:
  "(extract_tweet_id (PyStr u) = Some d \<longrightarrow>
      (\<exists>d'. extract_tweet_id (PyStr (pre @ u @ post)) = Some d')) \<and>
   (user \<noteq> [] \<and> CHR ''/'' \<notin> set user \<and> CHR 0x0A \<notin> set user \<and>
    list_all is_digit ds \<and> ds \<noteq> [] \<and> (tl0 = [] \<or> \<not> is_digit (hd tl0)) \<longrightarrow>
      extract_tweet_id (PyStr (''https://sub.twitter.com/'' @ user @ ''/status/'' @ ds @ tl0)) = Some ds \<and>
      normalize_input_url ipv6 (PyStr (''https://sub.twitter.com/'' @ user @ ''/status/'' @ ds @ tl0)) =
        Inr None) \<and>
   (\<exists>s. extract_tweet_id (PyStr s) \<noteq> None \<and> normalize_input_url ipv6 (PyStr s) = Inr None)"
proof (intro conjI impI)
  assume "extract_tweet_id (PyStr u) = Some d"
  then show "\<exists>d'. extract_tweet_id (PyStr (pre @ u @ post)) = Some d'" by (rule extract_unanchored)
next
  assume a: "user \<noteq> [] \<and> CHR ''/'' \<notin> set user \<and> CHR 0x0A \<notin> set user \<and>
    list_all is_digit ds \<and> ds \<noteq> [] \<and> (tl0 = [] \<or> \<not> is_digit (hd tl0))"
  then show "extract_tweet_id (PyStr (''https://sub.twitter.com/'' @ user @ ''/status/'' @ ds @ tl0)) = Some ds"
    by (intro sub_host_extracted) simp_all
  show "normalize_input_url ipv6 (PyStr (''https://sub.twitter.com/'' @ user @ ''/status/'' @ ds @ tl0)) = Inr None"
    by (rule sub_host_not_normalized)
next
  have "extract_tweet_id (PyStr (''https://sub.twitter.com/'' @ ''a'' @ ''/status/'' @ ''1'' @ [])) = Some ''1''"
    by (intro sub_host_extracted) (simp_all add: is_digit_def)
  moreover have "normalize_input_url ipv6 (PyStr (''https://sub.twitter.com/'' @ ''a/status/1'')) = Inr None"
    by (rule sub_host_not_normalized)
  ultimately show "\<exists>s. extract_tweet_id (PyStr s) \<noteq> None \<and> normalize_input_url ipv6 (PyStr s) = Inr None"
    by (intro exI [of _ "''https://sub.twitter.com/a/status/1''"]) simp
qed

theorem C10_unanchored_witness:
  "extract_tweet_id (PyStr ''x.com/a/status/42'') = Some ''42'' \<and>
   (\<exists>d'. extract_tweet_id (PyStr ''see https://x.com/a/status/42 now'') = Some d') \<and>
   extract_tweet_id (PyStr ''https://sub.twitter.com/bob/status/77?s=20'') = Some ''77'' \<and>
   normalize_input_url (\<lambda>h. False) (PyStr ''https://sub.twitter.com/bob/status/77?s=20'') = Inr None"
proof -
  have e: "extract_tweet_id (PyStr ''x.com/a/status/42'') = Some ''42''"
    by (simp add: extract_tweet_id_def TWEET_URL_RE_def str_eval rx_match_at_def)
  from C10_unanchored [of "''x.com/a/status/42''" "''42''" "''see https://''" "'' now''"] e
  have 1: "\<exists>d'. extract_tweet_id (PyStr ''see https://x.com/a/status/42 now'') = Some d'"
    by simp
  have h: "''bob'' \<noteq> [] \<and> CHR ''/'' \<notin> set ''bob'' \<and> CHR 0x0A \<notin> set ''bob'' \<and>
    list_all is_digit ''77'' \<and> ''77'' \<noteq> [] \<and> (''?s=20'' = [] \<or> \<not> is_digit (hd ''?s=20''))"
    by (simp add: is_digit_def)
  from C10_unanchored [of _ _ _ _ "''bob''" "''77''" "''?s=20''" "\<lambda>h. False"] h
  have 2: "extract_tweet_id (PyStr ''https://sub.twitter.com/bob/status/77?s=20'') = Some ''77'' \<and>
   normalize_input_url (\<lambda>h. False) (PyStr ''https://sub.twitter.com/bob/status/77?s=20'') = Inr None"
    by simp
  from e 1 2 show ?thesis by blast
qed



section \<open>The candidates of the second phase\<close>

text \<open>\<open>convert_to_x_domain\<close> sets the host \<open>x.com\<close> in each of its branches, so every
  candidate has the shape \<open>x_shaped\<close>, and the loop keeps \<open>cand_inv\<close>.\<close>

lemma convert_host: 
  "(if endswith host0 ''twitter.com'' then ''x.com''
    else if endswith host0 ''mobile.twitter.com'' \<or> endswith host0 ''m.twitter.com'' then ''x.com''
    else if endswith host0 ''.x.com'' then ''x.com''
    else if host0 \<noteq> ''x.com'' then ''x.com''
    else host0) = ''x.com''"
  by simp

lemma urlunparse_x:
  "urlunparse ''https'' ''x.com'' p [] q [] =
     ''https://x.com'' @ (if p \<noteq> [] \<and> take 1 p \<noteq> ''/'' then ''/'' @ p else p) @
       (if q \<noteq> [] then ''?'' @ q else [])"
  by (simp add: urlunparse_def urlunsplit_def)

lemma x_shaped_unparse: "x_shaped (urlunparse ''https'' ''x.com'' p [] q [])"
proof -
  let ?r = "(if p \<noteq> [] \<and> take 1 p \<noteq> ''/'' then ''/'' @ p else p) @ (if q \<noteq> [] then ''?'' @ q else [])"
  have "?r = [] \<or> hd ?r = CHR ''/'' \<or> hd ?r = CHR ''?''"
  proof (cases p)
    case Nil
    then show ?thesis by simp
  next
    case (Cons a as)
    show ?thesis
    proof (cases "a = CHR ''/''")
      case True
      with Cons show ?thesis by simp
    next
      case False
      with Cons show ?thesis by simp
    qed
  qed
  then show ?thesis unfolding x_shaped_def urlunparse_x by blast
qed

lemma convert_shape:
  assumes "convert_to_x_domain ipv6 u kq = Inr x"
  shows "x_shaped x"
proof (cases "urlparse ipv6 u")
  case (Inl e)
  with assms show ?thesis by (simp add: convert_to_x_domain_def)
next
  case (Inr b)
  have "convert_to_x_domain ipv6 u kq =
      Inr (urlunparse ''https'' ''x.com'' (path b) [] (if kq then query b else []) [])"
    unfolding convert_to_x_domain_def Let_def convert_host by (simp add: Inr)
  with assms have "x = urlunparse ''https'' ''x.com'' (path b) [] (if kq then query b else []) []"
    by simp
  then show ?thesis by (simp only: x_shaped_unparse)
qed

lemma add_candidate_inv:
  "cand_inv st \<Longrightarrow> x_shaped u \<Longrightarrow> cand_inv (add_candidate u st) \<and>
     set (snd st) \<subseteq> set (snd (add_candidate u st)) \<and> u \<in> set (snd (add_candidate u st))"
  by (cases st) (auto simp: cand_inv_def add_candidate_def)

lemma add_base_inv:
  assumes "cand_inv st" "add_base ipv6 parsed st = Inr st'"
  shows "cand_inv st' \<and> set (snd st) \<subseteq> set (snd st')"
proof (cases "normalize_input_url ipv6 (PyStr (seed_base parsed))")
  case (Inl e)
  with assms show ?thesis by (simp add: add_base_def)
next
  case (Inr nb)
  show ?thesis
  proof (cases nb)
    case None
    with Inr assms show ?thesis by (simp add: add_base_def)
  next
    case (Some b)
    show ?thesis
    proof (cases "b = []")
      case True
      with Some Inr assms show ?thesis by (simp add: add_base_def)
    next
      case False
      with Some Inr assms obtain x where c: "convert_to_x_domain ipv6 b False = Inr x"
        and s: "st' = add_candidate x st"
        by (auto simp: add_base_def split: sum.splits)
      from add_candidate_inv [OF assms(1) convert_shape [OF c]] s show ?thesis by simp
    qed
  qed
qed

lemma add_query_inv:
  assumes "cand_inv st" "add_query ipv6 parsed st = Inr st'"
  shows "cand_inv st' \<and> set (snd st) \<subseteq> set (snd st')"
proof (cases "query parsed = []")
  case True
  with assms show ?thesis by (simp add: add_query_def)
next
  case q: False
  show ?thesis
  proof (cases "normalize_input_url ipv6 (PyStr (seed_query_url parsed))")
    case (Inl e)
    with q assms show ?thesis by (simp add: add_query_def)
  next
    case (Inr nb)
    show ?thesis
    proof (cases nb)
      case None
      with q Inr assms show ?thesis by (simp add: add_query_def)
    next
      case (Some b)
      show ?thesis
      proof (cases "b = []")
        case True
        with q Some Inr assms show ?thesis by (simp add: add_query_def)
      next
        case False
        with q Some Inr assms obtain x where
          c: "convert_to_x_domain ipv6 (seed_query_url parsed) True = Inr x"
          and s: "st' = add_candidate x st"
          by (auto simp: add_query_def split: sum.splits)
        from add_candidate_inv [OF assms(1) convert_shape [OF c]] s show ?thesis by simp
      qed
    qed
  qed
qed

lemma fetch_step_inv:
  assumes "cand_inv st" "fetch_step ipv6 seed st = Inr st'"
  shows "cand_inv st' \<and> set (snd st) \<subseteq> set (snd st')"
proof (cases "truthy seed")
  case False
  with assms show ?thesis by (simp add: fetch_step_def)
next
  case True
  with assms obtain raw parsed st1 where "seed = PyStr raw"
    and "add_base ipv6 parsed st = Inr st1" and "add_query ipv6 parsed st1 = Inr st'"
    by (auto simp: fetch_step_def split: pyval.splits sum.splits)
  with add_base_inv [OF assms(1), of ipv6 parsed st1] add_query_inv [of st1 ipv6 parsed st']
  show ?thesis by auto
qed

lemma fetch_loop_inv:
  "cand_inv st \<Longrightarrow> fetch_loop ipv6 seeds st = Inr st' \<Longrightarrow>
   cand_inv st' \<and> set (snd st) \<subseteq> set (snd st')"
proof (induction seeds arbitrary: st)
  case Nil
  then show ?case by simp
next
  case (Cons seed seeds)
  from Cons.prems(2) obtain st1 where 1: "fetch_step ipv6 seed st = Inr st1"
    and 2: "fetch_loop ipv6 seeds st1 = Inr st'"
    by (auto split: sum.splits)
  from fetch_step_inv [OF Cons.prems(1) 1] Cons.IH [OF _ 2] show ?case by auto
qed

lemma fetch_loop_append:
  "fetch_loop ipv6 (xs @ ys) st =
     (case fetch_loop ipv6 xs st of Inl e \<Rightarrow> Inl e | Inr st1 \<Rightarrow> fetch_loop ipv6 ys st1)"
  by (induction xs arbitrary: st) (auto split: sum.splits)

text \<open>A seed \<open>https://host/path\<close> with an allowed host gives the candidate
  \<open>https://x.com/path\<close>; the four templates give two candidates.\<close>

lemma seed_https: "seed_with_scheme (''https://'' @ x) = ''https://'' @ x"
  by (simp add: seed_with_scheme_def startswith_def py_lower_def lower_char_def is_upper_def)

lemma x_com_allowed: "''x.com'' \<in> allowed_hosts"
  by (simp add: allowed_hosts_def)

lemma clean_seed_step:
  assumes "h \<in> allowed_hosts" "good_path p"
  shows "fetch_step ipv6 (PyStr (''https://'' @ h @ p)) st =
    Inr (add_candidate (''https://x.com'' @ rstrip p) st)"
proof -
  note hf = allowed_host_facts [OF assms(1)]
  from assms(2) have gp1: "p = [] \<or> hd p = CHR ''/''" by (simp add: good_path_def)
  have gp': "good_path (rstrip p)" using assms(2) by (rule good_path_rstrip)
  then have gp1': "rstrip p = [] \<or> hd (rstrip p) = CHR ''/''" by (simp add: good_path_def)
  have gq: "good_query []" by (simp add: good_query_def)
  let ?parsed = "\<lparr>scheme = ''https'', netloc = h, path = p, params = [], query = [], fragment = []\<rparr>"
  from urlparse_compose [OF https_prefix_facts(2) _ hf(2) assms(2) gq, of ipv6] hf(3) [of ipv6]
  have up: "urlparse ipv6 (''https://'' @ h @ p) = Inr ?parsed" by simp
  from urlunparse_good [OF hf(1) gp1, of "[]"]
  have base: "seed_base ?parsed = ''https://'' @ h @ p" by (simp add: seed_base_def)
  have norm: "normalize_input_url ipv6 (PyStr (''https://'' @ h @ p)) =
      Inr (Some (''https://'' @ h @ rstrip p))"
    using assms by (rule normalize_compute)
  from urlparse_compose [OF https_prefix_facts(2) _ hf(2) gp' gq, of ipv6] hf(3) [of ipv6]
  have up': "urlparse ipv6 (''https://'' @ h @ rstrip p) =
      Inr \<lparr>scheme = ''https'', netloc = h, path = rstrip p, params = [], query = [], fragment = []\<rparr>"
    by simp
  from urlunparse_good [OF allowed_host_facts(1) [OF x_com_allowed] gp1', of "[]"]
  have un: "urlunparse ''https'' ''x.com'' (rstrip p) [] [] [] = ''https://x.com'' @ rstrip p" by simp
  have conv: "convert_to_x_domain ipv6 (''https://'' @ h @ rstrip p) False =
      Inr (''https://x.com'' @ rstrip p)"
    unfolding convert_to_x_domain_def Let_def convert_host by (simp add: up' un del: append.simps)
  have ab: "add_base ipv6 ?parsed st = Inr (add_candidate (''https://x.com'' @ rstrip p) st)"
    unfolding add_base_def base by (simp add: norm conv del: append.simps)
  have aq: "\<And>s. add_query ipv6 ?parsed s = Inr s" by (simp add: add_query_def)
  have tr: "truthy (PyStr (''https://'' @ h @ p))" by simp
  show ?thesis
    unfolding fetch_step_def by (simp add: seed_https up ab aq del: append.simps)
qed

lemma digit_facts:
  "is_digit c \<Longrightarrow> \<not> unsafe_byte c \<and> c \<noteq> CHR ''?'' \<and> c \<noteq> CHR ''#'' \<and> c \<noteq> CHR '';'' \<and>
     c \<noteq> CHR ''/'' \<and> \<not> isspace c"
  by (auto simp: is_digit_def unsafe_byte_def isspace_def Let_def)

lemma template_path:
  assumes "list_all is_digit tid" "mid = ''/i/web/status'' \<or> mid = ''/i/status''"
  shows "good_path (mid @ CHR ''/'' # tid)" "rstrip (mid @ CHR ''/'' # tid) = mid @ CHR ''/'' # tid"
proof -
  from assms(1) have d: "\<forall>c\<in>set tid. \<not> unsafe_byte c \<and> c \<noteq> CHR ''?'' \<and> c \<noteq> CHR ''#'' \<and>
      c \<noteq> CHR '';'' \<and> c \<noteq> CHR ''/'' \<and> \<not> isspace c"
    by (auto simp: list_all_iff dest: digit_facts)
  then have "CHR ''/'' \<notin> set tid" by auto
  then have ls: "last_segment (mid @ CHR ''/'' # tid) = tid" by (rule last_segment_append)
  from d have semi: "CHR '';'' \<notin> set tid" by auto
  have hd: "hd (mid @ CHR ''/'' # tid) = CHR ''/''"
    using assms(2) by (elim disjE) simp_all
  have chars: "list_all (\<lambda>c. \<not> unsafe_byte c \<and> c \<noteq> CHR ''?'' \<and> c \<noteq> CHR ''#'') (mid @ CHR ''/'' # tid)"
    using assms(2) d by (elim disjE) (simp_all add: list_all_iff unsafe_byte_def)
  from hd chars ls semi show "good_path (mid @ CHR ''/'' # tid)"
    by (simp add: good_path_def)
  have "\<not> isspace (last (mid @ CHR ''/'' # tid))"
  proof (cases "tid = []")
    case True
    then show ?thesis by (simp add: isspace_def)
  next
    case False
    then have "last (mid @ CHR ''/'' # tid) = last tid" by simp
    moreover from False d have "\<not> isspace (last tid)" by (meson last_in_set)
    ultimately show ?thesis by simp
  qed
  then show "rstrip (mid @ CHR ''/'' # tid) = mid @ CHR ''/'' # tid"
    by (simp add: rstrip_idem)
qed

lemma template_step:
  assumes "list_all is_digit tid" "mid = ''/i/web/status'' \<or> mid = ''/i/status''"
    and "h = ''x.com'' \<or> h = ''twitter.com''"
  shows "fetch_step ipv6 (PyStr (''https://'' @ h @ mid @ CHR ''/'' # tid)) st =
    Inr (add_candidate (''https://x.com'' @ mid @ CHR ''/'' # tid) st)"
proof -
  from assms(3) have h: "h \<in> allowed_hosts" by (elim disjE) (simp_all add: allowed_hosts_def)
  from clean_seed_step [OF h template_path(1) [OF assms(1,2)], of ipv6 st]
    template_path(2) [OF assms(1,2)]
  show ?thesis by simp
qed

lemma templates_loop:
  assumes "list_all is_digit tid"
  shows "fetch_loop ipv6 (map PyStr (fetch_templates tid)) st =
    Inr (add_candidate (''https://x.com/i/status/'' @ tid)
          (add_candidate (''https://x.com/i/status/'' @ tid)
            (add_candidate (''https://x.com/i/web/status/'' @ tid)
              (add_candidate (''https://x.com/i/web/status/'' @ tid) st))))"
proof -
  have a: "\<And>s. fetch_step ipv6 (PyStr (''https://x.com/i/web/status/'' @ tid)) s =
      Inr (add_candidate (''https://x.com/i/web/status/'' @ tid) s)"
    using template_step [OF assms, of "''/i/web/status''" "''x.com''" ipv6] by simp
  have b: "\<And>s. fetch_step ipv6 (PyStr (''https://twitter.com/i/web/status/'' @ tid)) s =
      Inr (add_candidate (''https://x.com/i/web/status/'' @ tid) s)"
    using template_step [OF assms, of "''/i/web/status''" "''twitter.com''" ipv6] by simp
  have c: "\<And>s. fetch_step ipv6 (PyStr (''https://x.com/i/status/'' @ tid)) s =
      Inr (add_candidate (''https://x.com/i/status/'' @ tid) s)"
    using template_step [OF assms, of "''/i/status''" "''x.com''" ipv6] by simp
  have d: "\<And>s. fetch_step ipv6 (PyStr (''https://twitter.com/i/status/'' @ tid)) s =
      Inr (add_candidate (''https://x.com/i/status/'' @ tid) s)"
    using template_step [OF assms, of "''/i/status''" "''twitter.com''" ipv6] by simp
  show ?thesis
    by (simp add: fetch_templates_def a b c d del: append.simps)
qed

lemma template_x_shaped:
  "x_shaped (''https://x.com/i/web/status/'' @ tid)" "x_shaped (''https://x.com/i/status/'' @ tid)"
proof -
  have "''https://x.com/i/web/status/'' @ tid = ''https://x.com'' @ (''/i/web/status/'' @ tid)" by simp
  moreover have "hd (''/i/web/status/'' @ tid) = CHR ''/''" by simp
  ultimately show "x_shaped (''https://x.com/i/web/status/'' @ tid)"
    unfolding x_shaped_def by blast
  have "''https://x.com/i/status/'' @ tid = ''https://x.com'' @ (''/i/status/'' @ tid)" by simp
  moreover have "hd (''/i/status/'' @ tid) = CHR ''/''" by simp
  ultimately show "x_shaped (''https://x.com/i/status/'' @ tid)"
    unfolding x_shaped_def by blast
qed

lemma templates_added:
  assumes "list_all is_digit tid" "cand_inv st"
    and "fetch_loop ipv6 (map PyStr (fetch_templates tid)) st = Inr st'"
  shows "cand_inv st'" "''https://x.com/i/web/status/'' @ tid \<in> set (snd st')"
    "''https://x.com/i/status/'' @ tid \<in> set (snd st')"
proof -
  let ?W = "''https://x.com/i/web/status/'' @ tid" and ?S = "''https://x.com/i/status/'' @ tid"
  let ?s1 = "add_candidate ?W st"
  let ?s2 = "add_candidate ?W ?s1"
  let ?s3 = "add_candidate ?S ?s2"
  let ?s4 = "add_candidate ?S ?s3"
  from templates_loop [OF assms(1), of ipv6 st] assms(3) have st': "st' = ?s4" by simp
  note 1 = add_candidate_inv [OF assms(2) template_x_shaped(1) [of tid]]
  note 2 = add_candidate_inv [OF conjunct1 [OF 1] template_x_shaped(1) [of tid]]
  note 3 = add_candidate_inv [OF conjunct1 [OF 2] template_x_shaped(2) [of tid]]
  note 4 = add_candidate_inv [OF conjunct1 [OF 3] template_x_shaped(2) [of tid]]
  from 4 show "cand_inv st'" unfolding st' by blast
  from 4 show "?S \<in> set (snd st')" unfolding st' by blast
  from 1 2 3 4 show "?W \<in> set (snd st')" unfolding st' by blast
qed

lemma cand_inv_empty: "cand_inv ({}, [])"
  by (simp add: cand_inv_def)

text \<open>
  Claim C4, as amended.  For an identifier made of digits, whenever \<open>build_fetch_urls\<close>
  returns, its list is not empty, has no element twice, and contains the two URLs
  \<open>https://x.com/i/web/status/<id>\<close> and \<open>https://x.com/i/status/<id>\<close>: the templates
  on \<open>twitter.com\<close> are rewritten to \<open>x.com\<close> and then dropped as duplicates, so two of
  the four templates are in the list, not four.  With no seed (both arguments \<open>None\<close> or
  empty) the function returns exactly these two; with a seed that \<open>normalize_input_url\<close>
  returned and no canonical URL it returns a list.
\<close>

theorem C4_candidates:
  assumes "list_all is_digit tid"
  shows "(build_fetch_urls ipv6 tid normalized canonical = Inr cands \<longrightarrow>
       cands \<noteq> [] \<and> distinct cands \<and>
       ''https://x.com/i/web/status/'' @ tid \<in> set cands \<and>
       ''https://x.com/i/status/'' @ tid \<in> set cands) \<and>
    (\<not> truthy normalized \<and> \<not> truthy canonical \<longrightarrow>
       build_fetch_urls ipv6 tid normalized canonical =
         Inr [''https://x.com/i/web/status/'' @ tid, ''https://x.com/i/status/'' @ tid]) \<and>
    (normalize_input_url ipv6 (PyStr raw) = Inr (Some n) \<and> \<not> truthy canonical \<longrightarrow>
       (\<exists>urls. build_fetch_urls ipv6 tid (PyStr n) canonical = Inr urls))"
proof (intro conjI impI)
  let ?A = "(if truthy canonical then [canonical] else []) @ (if truthy normalized then [normalized] else [])"
  assume b: "build_fetch_urls ipv6 tid normalized canonical = Inr cands"
  have seeds: "fetch_seeds tid normalized canonical = ?A @ map PyStr (fetch_templates tid)"
    by (simp add: fetch_seeds_def)
  from b obtain seen where fl: "fetch_loop ipv6 (?A @ map PyStr (fetch_templates tid)) ({}, []) = Inr (seen, cands)"
    unfolding build_fetch_urls_def seeds by (auto split: sum.splits)
  then obtain st1 where 1: "fetch_loop ipv6 ?A ({}, []) = Inr st1"
    and 2: "fetch_loop ipv6 (map PyStr (fetch_templates tid)) st1 = Inr (seen, cands)"
    unfolding fetch_loop_append by (auto split: sum.splits)
  from fetch_loop_inv [OF cand_inv_empty 1] have inv1: "cand_inv st1" by simp
  from templates_added [OF assms inv1 2]
  have inv: "cand_inv (seen, cands)" and w: "''https://x.com/i/web/status/'' @ tid \<in> set cands"
    and s: "''https://x.com/i/status/'' @ tid \<in> set cands" by simp_all
  from w show "cands \<noteq> []" by auto
  from inv show "distinct cands" by (simp add: cand_inv_def)
  from w show "''https://x.com/i/web/status/'' @ tid \<in> set cands" .
  from s show "''https://x.com/i/status/'' @ tid \<in> set cands" .
next
  assume "\<not> truthy normalized \<and> \<not> truthy canonical"
  then have seeds: "fetch_seeds tid normalized canonical = map PyStr (fetch_templates tid)"
    by (simp add: fetch_seeds_def)
  show "build_fetch_urls ipv6 tid normalized canonical =
         Inr [''https://x.com/i/web/status/'' @ tid, ''https://x.com/i/status/'' @ tid]"
    unfolding build_fetch_urls_def seeds templates_loop [OF assms]
    by (simp add: add_candidate_def)
next
  assume a: "normalize_input_url ipv6 (PyStr raw) = Inr (Some n) \<and> \<not> truthy canonical"
  then obtain h p where n: "n = ''https://'' @ h @ p" and h: "h \<in> allowed_hosts" and gp: "good_path p"
    using normalize_shape by blast
  from a n have seeds: "fetch_seeds tid (PyStr n) canonical = PyStr n # map PyStr (fetch_templates tid)"
    by (simp add: fetch_seeds_def)
  have "fetch_step ipv6 (PyStr n) ({}, []) = Inr (add_candidate (''https://x.com'' @ rstrip p) ({}, []))"
    unfolding n using h gp by (rule clean_seed_step)
  then have "\<exists>st. fetch_loop ipv6 (PyStr n # map PyStr (fetch_templates tid)) ({}, []) = Inr st"
    by (simp add: templates_loop [OF assms])
  then show "\<exists>urls. build_fetch_urls ipv6 tid (PyStr n) canonical = Inr urls"
    unfolding build_fetch_urls_def seeds by (auto split: prod.splits)
qed

theorem C4_candidates_witness:
  "build_fetch_urls (\<lambda>h. False) ''123'' (PyStr ''https://twitter.com/acct/status/123'')
      (PyStr ''https://x.com/acct/status/123?s=20'') =
     Inr [''https://x.com/acct/status/123'', ''https://x.com/acct/status/123?s=20'',
          ''https://x.com/i/web/status/123'', ''https://x.com/i/status/123''] \<and>
   distinct [''https://x.com/acct/status/123'', ''https://x.com/acct/status/123?s=20'',
          ''https://x.com/i/web/status/123'', ''https://x.com/i/status/123''] \<and>
   build_fetch_urls (\<lambda>h. False) ''123'' PyNone (PyStr []) =
     Inr [''https://x.com/i/web/status/123'', ''https://x.com/i/status/123''] \<and>
   (\<exists>urls. build_fetch_urls (\<lambda>h. False) ''123'' (PyStr ''https://twitter.com/acct/status/123'') PyNone =
      Inr urls)"
proof -
  have d: "list_all is_digit ''123''" by (simp add: is_digit_def)
  have b: "build_fetch_urls (\<lambda>h. False) ''123'' (PyStr ''https://twitter.com/acct/status/123'')
      (PyStr ''https://x.com/acct/status/123?s=20'') =
     Inr [''https://x.com/acct/status/123'', ''https://x.com/acct/status/123?s=20'',
          ''https://x.com/i/web/status/123'', ''https://x.com/i/status/123'']"
    by (simp add: str_eval url_eval cand_eval Let_def)
  have n: "normalize_input_url (\<lambda>h. False) (PyStr ''twitter.com/acct/status/123?s=20'') =
      Inr (Some ''https://twitter.com/acct/status/123'')"
    by (simp add: str_eval url_eval Let_def)
  from C4_candidates [OF d, of "\<lambda>h. False" "PyStr ''https://twitter.com/acct/status/123''"
      "PyStr ''https://x.com/acct/status/123?s=20''"
      "[''https://x.com/acct/status/123'', ''https://x.com/acct/status/123?s=20'',
          ''https://x.com/i/web/status/123'', ''https://x.com/i/status/123'']"] b
  have 1: "distinct [''https://x.com/acct/status/123'', ''https://x.com/acct/status/123?s=20'',
          ''https://x.com/i/web/status/123'', ''https://x.com/i/status/123'']"
    by blast
  from C4_candidates [OF d, of "\<lambda>h. False" PyNone "PyStr []"]
  have 2: "build_fetch_urls (\<lambda>h. False) ''123'' PyNone (PyStr []) =
     Inr [''https://x.com/i/web/status/123'', ''https://x.com/i/status/123'']"
    by simp
  from C4_candidates [OF d, of "\<lambda>h. False" _ PyNone _ "''twitter.com/acct/status/123?s=20''"
      "''https://twitter.com/acct/status/123''"] n
  have 3: "\<exists>urls. build_fetch_urls (\<lambda>h. False) ''123'' (PyStr ''https://twitter.com/acct/status/123'') PyNone =
      Inr urls"
    by simp
  from b 1 2 3 show ?thesis by blast
qed

text \<open>The four templates give two candidates, none of them on \<open>twitter.com\<close>.  A seed
  with an unbalanced bracket in its host makes \<open>urlparse\<close> raise \<open>ValueError\<close>, and a
  canonical URL that is true and no string raises \<open>AttributeError\<close>.\<close>

theorem C4_four_templates_counterexample:
  "build_fetch_urls (\<lambda>h. False) ''123'' PyNone PyNone =
     Inr [''https://x.com/i/web/status/123'', ''https://x.com/i/status/123''] \<and>
   ''https://twitter.com/i/web/status/123'' \<notin>
     set [''https://x.com/i/web/status/123'', ''https://x.com/i/status/123''] \<and>
   ''https://twitter.com/i/status/123'' \<notin>
     set [''https://x.com/i/web/status/123'', ''https://x.com/i/status/123''] \<and>
   build_fetch_urls (\<lambda>h. False) ''123'' (PyStr ''https://[x.com/a/status/123'') PyNone = Inl ValueError \<and>
   build_fetch_urls (\<lambda>h. False) ''123'' PyNone (PyOther True) = Inl AttributeError"
  by (simp add: str_eval url_eval cand_eval Let_def)

text \<open>A candidate parses, with scheme \<open>https\<close> and host \<open>x.com\<close>.  A seed with scheme
  \<open>http\<close> or \<open>https\<close> whose base URL is not normalised has a host outside the allow-set,
  and then its URL with the query is not normalised either.\<close>

lemma x_shaped_parse:
  assumes "x_shaped c"
  shows "\<exists>r. urlparse ipv6 c = Inr r \<and> scheme r = ''https'' \<and> netloc r = ''x.com''"
proof -
  from assms obtain t where c: "c = ''https://'' @ ''x.com'' @ t"
    and t: "t = [] \<or> hd t = CHR ''/'' \<or> hd t = CHR ''?''"
    unfolding x_shaped_def by auto
  have ci: "py_lower ''https://'' = ''https://''"
    by (simp add: py_lower_def lower_char_def is_upper_def)
  then have ci': "py_lower ''https://'' = ''http://'' \<or> py_lower ''https://'' = ''https://''" by simp
  let ?f = "filter (\<lambda>c. \<not> unsafe_byte c) t"
  have ft: "?f = [] \<or> netloc_delim (hd ?f)"
  proof (cases t)
    case Nil
    then show ?thesis by simp
  next
    case (Cons a as)
    with t have "a = CHR ''/'' \<or> a = CHR ''?''" by simp
    then have "\<not> unsafe_byte a \<and> netloc_delim a"
      by (elim disjE) (simp_all add: unsafe_byte_def netloc_delim_def)
    with Cons show ?thesis by simp
  qed
  have "takeWhile (\<lambda>c. \<not> netloc_delim c) (''x.com'' @ ?f) = ''x.com''"
    using ft by (intro takeWhile_all_then) (auto simp: netloc_delim_def)
  moreover have "filter (\<lambda>c. \<not> unsafe_byte c) (''x.com'' @ t) = ''x.com'' @ ?f"
    by (simp add: unsafe_byte_def)
  ultimately have nl: "takeWhile (\<lambda>c. \<not> netloc_delim c)
      (filter (\<lambda>c. \<not> unsafe_byte c) (''x.com'' @ t)) = ''x.com''" by simp
  have ok: "check_netloc ipv6 ''x.com'' = Inr ()" by (simp add: check_netloc_def)
  from urlparse_ci_error [OF ci', of ipv6 "''x.com'' @ t"] nl ok obtain r where
    r: "urlparse ipv6 (''https://'' @ ''x.com'' @ t) = Inr r" by auto
  from urlparse_ci_shape(2) [OF ci' r] nl have n: "netloc r = ''x.com''" by simp
  from r have "\<exists>r0. urlsplit ipv6 (''https://'' @ ''x.com'' @ t) = Inr r0 \<and> scheme r = scheme r0"
    by (auto simp: urlparse_def split: sum.splits if_splits)
  then obtain r0 where r0: "urlsplit ipv6 (''https://'' @ ''x.com'' @ t) = Inr r0" "scheme r = scheme r0"
    by blast
  from urlsplit_https [OF ci, of ipv6 "''x.com'' @ t"] r0(1)
  have "scheme r0 = ''https''"
    by (auto simp: url_body_def Let_def split: prod.splits sum.splits)
  with r0(2) n r c show ?thesis by simp
qed

lemma seed_with_scheme_form:
  "\<exists>pre rest. seed_with_scheme t = pre @ rest \<and> (py_lower pre = ''http://'' \<or> py_lower pre = ''https://'')"
proof (cases "startswith t ''//''")
  case True
  then have "take (length ''//'') t = ''//''" by (simp only: startswith_def)
  moreover have "take (length ''//'') t @ drop (length ''//'') t = t" by (rule append_take_drop_id)
  ultimately have "t = ''//'' @ drop (length ''//'') t" by simp
  then obtain r where t: "t = ''//'' @ r" by blast
  have "seed_with_scheme (''//'' @ r) = ''https://'' @ r"
    by (simp add: seed_with_scheme_def startswith_def)
  moreover have "py_lower ''https://'' = ''https://''"
    by (simp add: py_lower_def lower_char_def is_upper_def)
  ultimately show ?thesis using t by blast
next
  case False
  show ?thesis
  proof (cases "startswith (py_lower t) ''http://''")
    case True
    then have "py_lower (take (length ''http://'') t) = ''http://''"
      by (simp only: startswith_def py_lower_def take_map)
    moreover from True False have "seed_with_scheme t = t"
      by (simp add: seed_with_scheme_def)
    then have "seed_with_scheme t = take (length ''http://'') t @ drop (length ''http://'') t"
      by (simp only: append_take_drop_id)
    ultimately show ?thesis by blast
  next
    case h: False
    show ?thesis
    proof (cases "startswith (py_lower t) ''https://''")
      case True
      then have "py_lower (take (length ''https://'') t) = ''https://''"
        by (simp only: startswith_def py_lower_def take_map)
      moreover from True False have "seed_with_scheme t = t"
        by (simp add: seed_with_scheme_def)
      then have "seed_with_scheme t = take (length ''https://'') t @ drop (length ''https://'') t"
        by (simp only: append_take_drop_id)
      ultimately show ?thesis by blast
    next
      case hs: False
      with h False have "seed_with_scheme t = ''https://'' @ py_lstrip (\<lambda>c. c = CHR ''/'') t"
        by (simp add: seed_with_scheme_def)
      moreover have "py_lower ''https://'' = ''https://''"
        by (simp add: py_lower_def lower_char_def is_upper_def)
      ultimately show ?thesis by blast
    qed
  qed
qed

lemma urlunparse_http:
  assumes "sch = ''http'' \<or> sch = ''https''" "p = [] \<or> hd p = CHR ''/''"
  shows "urlunparse sch nl p [] q [] = sch @ ''://'' @ nl @ p @ (if q = [] then [] else CHR ''?'' # q)"
proof -
  from assms(1) have s: "sch \<noteq> []" "sch \<in> set uses_netloc"
    by (elim disjE; simp add: uses_netloc_def)+
  from assms(2) have p: "p = [] \<or> take (Suc 0) p = ''/''"
    by (cases p) auto
  show ?thesis
    using s p by (auto simp: urlunparse_def urlunsplit_def)
qed

lemma host_allowed_last:
  assumes "host_of_netloc nl \<in> allowed_hosts"
  shows "nl \<noteq> []" "\<not> isspace (last nl)"
proof -
  let ?l = "py_lower nl"
  let ?h = "host_of_netloc nl"
  have hne: "?h \<noteq> []" using allowed_host_facts(1) [OF assms] .
  have hl: "last ?h = CHR ''m''"
    using assms unfolding allowed_hosts_def by (elim insertE emptyE) simp_all
  have h: "?h = ?l \<or> ?h = drop 4 ?l" by (simp add: host_of_netloc_def Let_def)
  from h hne have lne: "?l \<noteq> []" by auto
  then show nne: "nl \<noteq> []" by (simp add: py_lower_def)
  from h hne have "last ?h = last ?l" by (elim disjE) (simp_all add: last_drop)
  also have "\<dots> = lower_char (last nl)" using nne by (simp add: py_lower_def last_map)
  finally have "lower_char (last nl) = CHR ''m''" using hl by simp
  from lower_char_bit5 [OF this] show "\<not> isspace (last nl)"
    by (elim disjE conjE) (simp_all add: isspace_def)
qed

lemma http_prefix_facts:
  assumes "sch = ''http'' \<or> sch = ''https''"
  shows "with_scheme (sch @ ''://'' @ x) = sch @ ''://'' @ x"
    "py_lower (sch @ ''://'') = ''http://'' \<or> py_lower (sch @ ''://'') = ''https://''"
    "sch @ ''://'' @ x \<noteq> []" "\<not> isspace (hd (sch @ ''://'' @ x))"
  using assms
  by (elim disjE; simp add: with_scheme_def startswith_def py_lower_def lower_char_def is_upper_def
        isspace_def)+

lemma delim_facts: "netloc_delim c \<Longrightarrow> \<not> unsafe_byte c \<and> \<not> isspace c"
  by (auto simp: netloc_delim_def unsafe_byte_def isspace_def)

lemma normalize_by_host:
  assumes "sch = ''http'' \<or> sch = ''https''" "good_netloc nl" "check_netloc ipv6 nl = Inr ()"
    and "py_strip (sch @ ''://'' @ nl @ t) = sch @ ''://'' @ nl @ t'"
    and "t' = [] \<or> netloc_delim (hd t')"
  shows "host_of_netloc nl \<notin> allowed_hosts \<Longrightarrow>
      normalize_input_url ipv6 (PyStr (sch @ ''://'' @ nl @ t)) = Inr None"
    "host_of_netloc nl \<in> allowed_hosts \<Longrightarrow>
      \<exists>n. normalize_input_url ipv6 (PyStr (sch @ ''://'' @ nl @ t)) = Inr (Some n)"
proof -
  note pf = http_prefix_facts [OF assms(1)]
  let ?f = "filter (\<lambda>c. \<not> unsafe_byte c) t'"
  from assms(2) have nl: "\<forall>c\<in>set nl. \<not> unsafe_byte c \<and> \<not> netloc_delim c"
    by (simp add: good_netloc_def list_all_iff)
  then have fnl: "filter (\<lambda>c. \<not> unsafe_byte c) (nl @ t') = nl @ ?f"
    by (simp add: filter_id_conv)
  have ft: "?f = [] \<or> \<not> \<not> netloc_delim (hd ?f)"
  proof (cases t')
    case Nil
    then show ?thesis by simp
  next
    case (Cons a as)
    with assms(5) have "netloc_delim a" by simp
    with delim_facts [of a] Cons show ?thesis by simp
  qed
  have "takeWhile (\<lambda>c. \<not> netloc_delim c) (nl @ ?f) = nl"
    using nl ft by (intro takeWhile_all_then) auto
  with fnl have tw: "takeWhile (\<lambda>c. \<not> netloc_delim c) (filter (\<lambda>c. \<not> unsafe_byte c) (nl @ t')) = nl"
    by simp
  from urlparse_ci_error [OF pf(2), of ipv6 "nl @ t'"] tw assms(3) obtain parsed where
    p: "urlparse ipv6 ((sch @ ''://'') @ nl @ t') = Inr parsed" by auto
  from urlparse_ci_shape(2) [OF pf(2) p] tw have n: "netloc parsed = nl" by simp
  from p have p': "urlparse ipv6 (sch @ ''://'' @ nl @ t') = Inr parsed" by simp
  have ne: "sch @ ''://'' @ nl @ t' \<noteq> []" by (rule pf(3))
  show "host_of_netloc nl \<notin> allowed_hosts \<Longrightarrow>
      normalize_input_url ipv6 (PyStr (sch @ ''://'' @ nl @ t)) = Inr None"
    unfolding normalize_input_url_def
    by (simp add: assms(4) pf(1) ne p' n Let_def del: append.simps)
  show "host_of_netloc nl \<in> allowed_hosts \<Longrightarrow>
      \<exists>n. normalize_input_url ipv6 (PyStr (sch @ ''://'' @ nl @ t)) = Inr (Some n)"
    unfolding normalize_input_url_def
    by (simp add: assms(4) pf(1) ne p' n Let_def del: append.simps)
qed

lemma strip_with_tail:
  assumes "sch = ''http'' \<or> sch = ''https''" "t \<noteq> []" "netloc_delim (hd t)"
  shows "\<exists>t'. py_strip (sch @ ''://'' @ nl @ t) = sch @ ''://'' @ nl @ t' \<and> netloc_delim (hd t') \<and> t' \<noteq> []"
proof -
  note pf = http_prefix_facts [OF assms(1)]
  from assms(2) obtain a as where t: "t = a # as" by (cases t) auto
  with assms(3) have a: "netloc_delim a" "\<not> isspace a" using delim_facts [of a] by simp_all
  let ?s = "sch @ ''://'' @ nl @ [a]"
  have "py_strip (?s @ as) = rstrip (?s @ as)"
    using pf(3,4) [of "nl @ [a] @ as"] by (intro py_strip_rstrip) simp_all
  also have "\<dots> = ?s @ rstrip as" using a(2) by (intro rstrip_append) simp_all
  finally have "py_strip (sch @ ''://'' @ nl @ t) = sch @ ''://'' @ nl @ (a # rstrip as)"
    using t by simp
  with a(1) show ?thesis by (intro exI [of _ "a # rstrip as"]) simp
qed

lemma strip_clean_host:
  assumes "sch = ''http'' \<or> sch = ''https''" "nl \<noteq> []" "\<not> isspace (last nl)"
  shows "py_strip (sch @ ''://'' @ nl @ p) = sch @ ''://'' @ nl @ rstrip p"
proof -
  note pf = http_prefix_facts [OF assms(1)]
  let ?s = "sch @ ''://'' @ nl"
  have "py_strip (?s @ p) = rstrip (?s @ p)"
    using pf(3,4) [of "nl @ p"] by (intro py_strip_rstrip) simp_all
  also have "\<dots> = ?s @ rstrip p" using assms(2,3) by (intro rstrip_append) simp_all
  finally show ?thesis by simp
qed

lemma failed_seed_adds_nothing:
  assumes "urlparse ipv6 (seed_with_scheme raw) = Inr parsed"
    and "normalize_input_url ipv6 (PyStr (seed_base parsed)) = Inr None"
  shows "fetch_step ipv6 (PyStr raw) st = Inr st"
proof (cases "raw = []")
  case True
  then show ?thesis by (simp add: fetch_step_def)
next
  case False
  from seed_with_scheme_form [of raw] obtain pre rest where
    w: "seed_with_scheme raw = pre @ rest"
    and ci: "py_lower pre = ''http://'' \<or> py_lower pre = ''https://''" by blast
  from assms(1) w have up: "urlparse ipv6 (pre @ rest) = Inr parsed" by simp
  note sh = urlparse_ci_shape [OF ci up]
  let ?sch = "scheme parsed" and ?nl = "netloc parsed" and ?p = "path parsed" and ?q = "query parsed"
  from sh(1) have sne: "?sch \<noteq> []" by auto
  from sh(5) have p1: "?p = [] \<or> hd ?p = CHR ''/''" by (simp add: good_path_def)
  from urlunparse_http [OF sh(1) p1, of ?nl "[]"] sne
  have base: "seed_base parsed = ?sch @ ''://'' @ ?nl @ ?p" by (simp add: seed_base_def)
  from urlunparse_http [OF sh(1) p1, of ?nl ?q] sne
  have qurl: "?q \<noteq> [] \<Longrightarrow> seed_query_url parsed = ?sch @ ''://'' @ ?nl @ (?p @ CHR ''?'' # ?q)"
    by (simp add: seed_query_url_def)
  have nothost: "host_of_netloc ?nl \<notin> allowed_hosts"
  proof
    assume h: "host_of_netloc ?nl \<in> allowed_hosts"
    note l = host_allowed_last [OF h]
    have gp': "good_path (rstrip ?p)" using sh(5) by (rule good_path_rstrip)
    then have t': "rstrip ?p = [] \<or> netloc_delim (hd (rstrip ?p))"
      by (auto simp: good_path_def netloc_delim_def)
    from normalize_by_host(2) [OF sh(1) sh(4) sh(3) strip_clean_host [OF sh(1) l] t' h] base assms(2)
    show False by simp
  qed
  have ab: "add_base ipv6 parsed st = Inr st"
    using assms(2) by (simp add: add_base_def)
  have aq: "add_query ipv6 parsed st = Inr st"
  proof (cases "?q = []")
    case True
    then show ?thesis by (simp add: add_query_def)
  next
    case q: False
    let ?t = "?p @ CHR ''?'' # ?q"
    have tne: "?t \<noteq> []" by simp
    have thd: "netloc_delim (hd ?t)"
    proof (cases ?p)
      case Nil
      then show ?thesis by (simp add: netloc_delim_def)
    next
      case (Cons a as)
      with p1 show ?thesis by (simp add: netloc_delim_def)
    qed
    from strip_with_tail [OF sh(1) tne thd, of ?nl] obtain t' where
      st: "py_strip (?sch @ ''://'' @ ?nl @ ?t) = ?sch @ ''://'' @ ?nl @ t'"
      and t': "netloc_delim (hd t')" by blast
    from normalize_by_host(1) [OF sh(1) sh(4) sh(3) st _ nothost] t'
    have "normalize_input_url ipv6 (PyStr (?sch @ ''://'' @ ?nl @ ?t)) = Inr None" by simp
    with qurl [OF q] have "normalize_input_url ipv6 (PyStr (seed_query_url parsed)) = Inr None"
      by simp
    with q show ?thesis by (simp add: add_query_def)
  qed
  from False assms(1) ab aq show ?thesis
    by (simp add: fetch_step_def)
qed

text \<open>
  Claim C8.  Every candidate that \<open>build_fetch_urls\<close> returns parses (\<open>urlparse\<close>) with
  scheme \<open>https\<close> and host \<open>x.com\<close>, whatever the seeds were.  A seed that parses and whose
  base URL \<open>normalize_input_url\<close> rejects leaves \<open>seen\<close> and the candidates as they were:
  it adds no candidate, with or without its query.
\<close>

theorem C8_candidates_on_x:
  "(build_fetch_urls ipv6 tid normalized canonical = Inr cands \<longrightarrow>
      (\<forall>c\<in>set cands. \<exists>r. urlparse ipv6 c = Inr r \<and> scheme r = ''https'' \<and> netloc r = ''x.com'')) \<and>
   (urlparse ipv6 (seed_with_scheme raw) = Inr parsed \<and>
    normalize_input_url ipv6 (PyStr (seed_base parsed)) = Inr None \<longrightarrow>
      fetch_step ipv6 (PyStr raw) st = Inr st)"
proof (intro conjI impI ballI)
  fix c
  assume b: "build_fetch_urls ipv6 tid normalized canonical = Inr cands" and c: "c \<in> set cands"
  from b obtain seen where "fetch_loop ipv6 (fetch_seeds tid normalized canonical) ({}, []) = Inr (seen, cands)"
    unfolding build_fetch_urls_def by (auto split: sum.splits)
  from fetch_loop_inv [OF cand_inv_empty this] have "list_all x_shaped cands"
    by (simp add: cand_inv_def)
  with c have "x_shaped c" by (simp add: list_all_iff)
  then show "\<exists>r. urlparse ipv6 c = Inr r \<and> scheme r = ''https'' \<and> netloc r = ''x.com''"
    by (rule x_shaped_parse)
next
  assume "urlparse ipv6 (seed_with_scheme raw) = Inr parsed \<and>
    normalize_input_url ipv6 (PyStr (seed_base parsed)) = Inr None"
  then show "fetch_step ipv6 (PyStr raw) st = Inr st"
    using failed_seed_adds_nothing by blast
qed

theorem C8_candidates_on_x_witness:
  "build_fetch_urls (\<lambda>h. False) ''123'' (PyStr ''http://mobile.twitter.com/acct/status/123?s=20'') PyNone =
     Inr [''https://x.com/acct/status/123'', ''https://x.com/acct/status/123?s=20'',
          ''https://x.com/i/web/status/123'', ''https://x.com/i/status/123''] \<and>
   (\<exists>r. urlparse (\<lambda>h. False) ''https://x.com/acct/status/123?s=20'' = Inr r \<and>
        scheme r = ''https'' \<and> netloc r = ''x.com'') \<and>
   fetch_step (\<lambda>h. False) (PyStr ''example.com/acct/status/123?s=20'')
     ({''https://x.com/a''}, [''https://x.com/a'']) = Inr ({''https://x.com/a''}, [''https://x.com/a''])"
proof -
  let ?L = "[''https://x.com/acct/status/123'', ''https://x.com/acct/status/123?s=20'',
          ''https://x.com/i/web/status/123'', ''https://x.com/i/status/123'']"
  let ?P = "\<lparr>scheme = ''https'', netloc = ''example.com'', path = ''/acct/status/123'',
           params = [], query = ''s=20'', fragment = []\<rparr>"
  have b: "build_fetch_urls (\<lambda>h. False) ''123'' (PyStr ''http://mobile.twitter.com/acct/status/123?s=20'') PyNone =
     Inr ?L"
    by (simp add: str_eval url_eval cand_eval Let_def)
  have m: "''https://x.com/acct/status/123?s=20'' \<in> set ?L" by simp
  have p: "urlparse (\<lambda>h. False) (seed_with_scheme ''example.com/acct/status/123?s=20'') = Inr ?P"
    by (simp add: str_eval url_eval cand_eval Let_def)
  have n: "normalize_input_url (\<lambda>h. False) (PyStr (seed_base ?P)) = Inr None"
    by (simp add: str_eval url_eval cand_eval Let_def)
  note t = C8_candidates_on_x [of "\<lambda>h. False" "''123''"
      "PyStr ''http://mobile.twitter.com/acct/status/123?s=20''" PyNone ?L
      "''example.com/acct/status/123?s=20''" ?P "({''https://x.com/a''}, [''https://x.com/a''])"]
  from t b m have 1: "\<exists>r. urlparse (\<lambda>h. False) ''https://x.com/acct/status/123?s=20'' = Inr r \<and>
        scheme r = ''https'' \<and> netloc r = ''x.com''"
    by blast
  from t p n have 2: "fetch_step (\<lambda>h. False) (PyStr ''example.com/acct/status/123?s=20'')
     ({''https://x.com/a''}, [''https://x.com/a'']) = Inr ({''https://x.com/a''}, [''https://x.com/a''])"
    by blast
  from b 1 2 show ?thesis by blast
qed

end
